theory Spec2Isabelle
  imports Main
begin

section \<open>Python values and exceptions\<close>

text \<open>
  The zone classes of \<^verbatim>\<open>evohomeasync2\<close> handle JSON payloads as plain Python values
  (\<^verbatim>\<open>_EvoDictT = dict[str, Any]\<close>). A dict is an association list in insertion order
  with \<^verbatim>\<open>str\<close> keys. A float is identified by the literal that \<^verbatim>\<open>json\<close> writes for
  it (\<^verbatim>\<open>float.__repr__\<close>, or \<^verbatim>\<open>NaN\<close>, \<^verbatim>\<open>Infinity\<close>, \<^verbatim>\<open>-Infinity\<close>).
  A \<^verbatim>\<open>str\<close> is the list of the bytes of its UTF-8 form, so an ASCII string is the list
  of its characters. \<open>POther t\<close> is an object of any other type \<open>t\<close> (bytes, set,
  datetime, ...).
\<close>

datatype pyval =
    PNone
  | PBool bool
  | PInt int
  | PFloat string
  | PStr string
  | PList "pyval list"
  | PDict "(string \<times> pyval) list"
  | POther string

datatype exn =
    TypeError
  | ValueError
  | OverflowError
  | JSONDecodeError
  | RecursionError
  | AttributeError
  | KeyError string
  | AssertionError string
  | NotImplementedError string
  | InvalidSchedule string
  | FailedRequest string
  | InvalidSchema

type_synonym 'a result = "exn + 'a"

text \<open>\<^verbatim>\<open>d.get(k)\<close>, \<^verbatim>\<open>d[k]\<close> and \<^verbatim>\<open>d[k] = v\<close> on a dict.\<close>

definition dict_get :: "(string \<times> pyval) list \<Rightarrow> string \<Rightarrow> pyval" where
  "dict_get d k = (case map_of d k of None \<Rightarrow> PNone | Some v \<Rightarrow> v)"

definition dict_item :: "(string \<times> pyval) list \<Rightarrow> string \<Rightarrow> pyval result" where
  "dict_item d k = (case map_of d k of None \<Rightarrow> Inl (KeyError k) | Some v \<Rightarrow> Inr v)"

fun dict_set :: "(string \<times> pyval) list \<Rightarrow> string \<Rightarrow> pyval \<Rightarrow> (string \<times> pyval) list" where
  "dict_set [] k v = [(k, v)]"
| "dict_set ((k', v') # d) k v = (if k' = k then (k, v) # d else (k', v') # dict_set d k v)"

text \<open>Truth value testing, as \<^verbatim>\<open>assert x\<close> and \<^verbatim>\<open>x or y\<close> do it.\<close>

fun truthy :: "pyval \<Rightarrow> bool" where
  "truthy PNone = False"
| "truthy (PBool b) = b"
| "truthy (PInt i) = (i \<noteq> 0)"
| "truthy (PFloat l) = (l \<noteq> ''0.0'' \<and> l \<noteq> ''-0.0'')"
| "truthy (PStr s) = (s \<noteq> [])"
| "truthy (PList xs) = (xs \<noteq> [])"
| "truthy (PDict d) = (d \<noteq> [])"
| "truthy (POther t) = True"

section \<open>Constants of \<^verbatim>\<open>schema/const.py\<close>\<close>

text \<open>
  Modelled from the spec: the string constants of \<^verbatim>\<open>evohomeasync2/schema/const.py\<close>,
  which is not among the sources. The spec names the path discriminators
  (\<^verbatim>\<open>temperatureZone\<close>, \<^verbatim>\<open>domesticHotWater\<close>), the identifier fields, the status fields,
  the command payload keys and the six fields of the schedule codec; each value is the
  spelling the spec gives, in the remote API's lower camel case where it gives a name only.
\<close>

definition SZ_TEMPERATURE_ZONE :: string where "SZ_TEMPERATURE_ZONE = ''temperatureZone''"
definition SZ_DOMESTIC_HOT_WATER :: string where "SZ_DOMESTIC_HOT_WATER = ''domesticHotWater''"
definition SZ_ZONE_ID :: string where "SZ_ZONE_ID = ''zoneId''"
definition SZ_DHW_ID :: string where "SZ_DHW_ID = ''dhwId''"
definition SZ_NAME :: string where "SZ_NAME = ''name''"
definition SZ_ACTIVE_FAULTS :: string where "SZ_ACTIVE_FAULTS = ''activeFaults''"
definition SZ_TEMPERATURE_STATUS :: string where "SZ_TEMPERATURE_STATUS = ''temperatureStatus''"
definition SZ_SETPOINT_STATUS :: string where "SZ_SETPOINT_STATUS = ''setpointStatus''"
definition SZ_STATE_STATUS :: string where "SZ_STATE_STATUS = ''stateStatus''"
definition SZ_SETPOINT_MODE :: string where "SZ_SETPOINT_MODE = ''SetpointMode''"
definition SZ_HEAT_SETPOINT_VALUE :: string where "SZ_HEAT_SETPOINT_VALUE = ''HeatSetpointValue''"
definition SZ_TIME_UNTIL :: string where "SZ_TIME_UNTIL = ''TimeUntil''"
definition SZ_PERMANENT_OVERRIDE :: string where "SZ_PERMANENT_OVERRIDE = ''PermanentOverride''"
definition SZ_TEMPORARY_OVERRIDE :: string where "SZ_TEMPORARY_OVERRIDE = ''TemporaryOverride''"
definition SZ_FOLLOW_SCHEDULE :: string where "SZ_FOLLOW_SCHEDULE = ''FollowSchedule''"
definition SZ_DAILY_SCHEDULES :: string where "SZ_DAILY_SCHEDULES = ''dailySchedules''"
definition SZ_DAY_OF_WEEK :: string where "SZ_DAY_OF_WEEK = ''dayOfWeek''"
definition SZ_DHW_STATE :: string where "SZ_DHW_STATE = ''dhwState''"
definition SZ_SWITCHPOINTS :: string where "SZ_SWITCHPOINTS = ''switchpoints''"
definition SZ_TEMPERATURE :: string where "SZ_TEMPERATURE = ''temperature''"
definition SZ_TIME_OF_DAY :: string where "SZ_TIME_OF_DAY = ''timeOfDay''"
definition SZ_HEAT_SETPOINT :: string where "SZ_HEAT_SETPOINT = ''heatSetpoint''"

lemmas SZ_defs =
  SZ_TEMPERATURE_ZONE_def SZ_DOMESTIC_HOT_WATER_def SZ_ZONE_ID_def SZ_DHW_ID_def SZ_NAME_def
  SZ_ACTIVE_FAULTS_def SZ_TEMPERATURE_STATUS_def SZ_SETPOINT_STATUS_def SZ_STATE_STATUS_def
  SZ_SETPOINT_MODE_def SZ_HEAT_SETPOINT_VALUE_def SZ_TIME_UNTIL_def SZ_PERMANENT_OVERRIDE_def
  SZ_TEMPORARY_OVERRIDE_def SZ_FOLLOW_SCHEDULE_def SZ_DAILY_SCHEDULES_def SZ_DAY_OF_WEEK_def
  SZ_DHW_STATE_def SZ_SWITCHPOINTS_def SZ_TEMPERATURE_def SZ_TIME_OF_DAY_def
  SZ_HEAT_SETPOINT_def

section \<open>The broker\<close>

text \<open>
  Modelled from the spec: the \<^verbatim>\<open>Broker\<close> collaborator (\<^verbatim>\<open>tcs._broker\<close>), whose class is
  not among the sources. Section 6 of the spec gives its interface,
  \<^verbatim>\<open>get(path, schema) -> Json\<close> and \<^verbatim>\<open>put(path, json, schema?) -> Json\<close>, each possibly
  failing. The model keeps the log of the requests made and a \<open>respond\<close> function, the
  remote side, which may depend on that log and may fail. The log has one entry for each
  invocation of \<^verbatim>\<open>get\<close> or \<^verbatim>\<open>put\<close>. A payload that the schema rejects (the response
  of a \<^verbatim>\<open>get\<close>, the body of a \<^verbatim>\<open>put\<close>) fails, as sections 4.1 and 7 of the spec say.
\<close>

datatype request = GET string | PUT string pyval

record broker =
  calls :: "request list"
  respond :: "request list \<Rightarrow> request \<Rightarrow> pyval result"

definition validated :: "(pyval \<Rightarrow> bool) option \<Rightarrow> pyval result \<Rightarrow> pyval result" where
  "validated schema r =
     (case r of
        Inl e \<Rightarrow> Inl e
      | Inr v \<Rightarrow> (case schema of
                   None \<Rightarrow> Inr v
                 | Some ok \<Rightarrow> if ok v then Inr v else Inl InvalidSchema))"

definition broker_get :: "string \<Rightarrow> (pyval \<Rightarrow> bool) option \<Rightarrow> broker \<Rightarrow> pyval result \<times> broker" where
  "broker_get path schema b =
     (validated schema (respond b (calls b) (GET path)),
      b\<lparr>calls := calls b @ [GET path]\<rparr>)"

definition broker_put :: "string \<Rightarrow> pyval \<Rightarrow> (pyval \<Rightarrow> bool) option \<Rightarrow> broker \<Rightarrow> pyval result \<times> broker" where
  "broker_put path body schema b =
     (case validated schema (Inr body) of
        Inl e \<Rightarrow> Inl e
      | Inr body' \<Rightarrow> respond b (calls b) (PUT path body'),
      b\<lparr>calls := calls b @ [PUT path body]\<rparr>)"

section \<open>Text of a value\<close>

text \<open>
  An f-string formats a value with \<^verbatim>\<open>str()\<close>: a \<^verbatim>\<open>str\<close> is itself, an \<^verbatim>\<open>int\<close> its
  decimal digits. The identifiers are declared \<^verbatim>\<open>_id: str\<close>; for the other JSON values
  the text is Python's \<^verbatim>\<open>repr\<close>, strings inside containers being quoted without
  escapes, and an object of another type is shown by its type name only.
\<close>

fun show_nat :: "nat \<Rightarrow> string" where
  "show_nat n =
     (if n < 10 then [char_of (48 + n)]
      else show_nat (n div 10) @ [char_of (48 + n mod 10)])"

declare show_nat.simps [simp del]

definition show_int :: "int \<Rightarrow> string" where
  "show_int i = (if i < 0 then CHR ''-'' # show_nat (nat (- i)) else show_nat (nat i))"

fun intersperse :: "string \<Rightarrow> string list \<Rightarrow> string" where
  "intersperse sep [] = []"
| "intersperse sep [x] = x"
| "intersperse sep (x # y # ys) = x @ sep @ intersperse sep (y # ys)"

definition float_repr :: "string \<Rightarrow> string" where
  "float_repr l =
     (if l = ''NaN'' then ''nan'' else if l = ''Infinity'' then ''inf''
      else if l = ''-Infinity'' then ''-inf'' else l)"

fun py_repr :: "pyval \<Rightarrow> string" where
  "py_repr PNone = ''None''"
| "py_repr (PBool b) = (if b then ''True'' else ''False'')"
| "py_repr (PInt i) = show_int i"
| "py_repr (PFloat l) = float_repr l"
| "py_repr (PStr s) = [CHR 0x27] @ s @ [CHR 0x27]"
| "py_repr (PList xs) = ''['' @ intersperse '', '' (map py_repr xs) @ '']''"
| "py_repr (PDict d) =
     ''{'' @ intersperse '', ''
        (map (\<lambda>kv. [CHR 0x27] @ fst kv @ [CHR 0x27] @ '': '' @ py_repr (snd kv)) d) @ ''}''"
| "py_repr (POther t) = t"

definition py_str :: "pyval \<Rightarrow> string" where
  "py_str v = (case v of PStr s \<Rightarrow> s | _ \<Rightarrow> py_repr v)"

section \<open>Zone entities\<close>

text \<open>
  \<^verbatim>\<open>_ZoneBase\<close> and its two subclasses \<^verbatim>\<open>Zone\<close> and \<^verbatim>\<open>HotWater\<close>. An entity holds its
  \<^verbatim>\<open>_id\<close>, its \<^verbatim>\<open>_type\<close>, its \<^verbatim>\<open>_config\<close> and its \<^verbatim>\<open>_status\<close>; the broker is shared
  with the parent, so every operation takes the broker and returns it with the entity.
\<close>

record entity =
  z_id :: pyval
  z_type :: string
  z_config :: "(string \<times> pyval) list"
  z_status :: pyval

text \<open>
  \<^verbatim>\<open>Zone.__init__\<close> and \<^verbatim>\<open>HotWater.__init__\<close>: \<^verbatim>\<open>_ZoneBase.__init__\<close> sets
  \<^verbatim>\<open>_status = {}\<close>, then \<^verbatim>\<open>assert self.zoneId, "Invalid config dict"\<close> reads
  \<^verbatim>\<open>self._config[SZ_ZONE_ID]\<close>, which raises \<^verbatim>\<open>KeyError\<close> when the key is missing.
\<close>

definition zoneId :: "entity \<Rightarrow> pyval result" where
  "zoneId z = dict_item (z_config z) SZ_ZONE_ID"

definition dhwId :: "entity \<Rightarrow> pyval result" where
  "dhwId z = dict_item (z_config z) SZ_DHW_ID"

definition ZoneBase_init :: "string \<Rightarrow> (string \<times> pyval) list \<Rightarrow> entity" where
  "ZoneBase_init ty config = \<lparr>z_id = PNone, z_type = ty, z_config = config, z_status = PDict []\<rparr>"

definition Zone_init :: "(string \<times> pyval) list \<Rightarrow> entity result" where
  "Zone_init config =
     (let self = ZoneBase_init SZ_TEMPERATURE_ZONE config in
      case zoneId self of
        Inl e \<Rightarrow> Inl e
      | Inr i \<Rightarrow> if \<not> truthy i then Inl (AssertionError ''Invalid config dict'')
                else Inr (self\<lparr>z_id := i\<rparr>))"

definition HotWater_init :: "(string \<times> pyval) list \<Rightarrow> entity result" where
  "HotWater_init config =
     (let self = ZoneBase_init SZ_DOMESTIC_HOT_WATER config in
      case dhwId self of
        Inl e \<Rightarrow> Inl e
      | Inr i \<Rightarrow> if \<not> truthy i then Inl (AssertionError ''Invalid config dict'')
                else Inr (self\<lparr>z_id := i\<rparr>))"

text \<open>The \<^verbatim>\<open>name\<close> properties of the two classes.\<close>

definition Zone_name :: "entity \<Rightarrow> pyval result" where
  "Zone_name z =
     (if truthy (dict_get (z_config z) SZ_NAME) then Inr (dict_get (z_config z) SZ_NAME)
      else dict_item (z_config z) SZ_NAME)"

definition HotWater_name :: "entity \<Rightarrow> pyval result" where
  "HotWater_name z = Inr (PStr ''Domestic Hot Water'')"

text \<open>
  \<^verbatim>\<open>_refresh_status\<close> and \<^verbatim>\<open>_update_status\<close>. The class attribute \<^verbatim>\<open>STATUS_SCHEMA\<close>
  (\<^verbatim>\<open>SCH_ZONE_STATUS\<close>, \<^verbatim>\<open>SCH_DHW_STATUS\<close>) is declared outside the sources and is an
  argument here. An exception of \<^verbatim>\<open>broker.get\<close> propagates before \<^verbatim>\<open>_update_status\<close>.
\<close>

definition update_status :: "entity \<Rightarrow> pyval \<Rightarrow> entity" where
  "update_status z status = z\<lparr>z_status := status\<rparr>"

definition status_path :: "entity \<Rightarrow> string" where
  "status_path z = z_type z @ ''/'' @ py_str (z_id z) @ ''/status''"

definition refresh_status ::
  "(pyval \<Rightarrow> bool) \<Rightarrow> entity \<Rightarrow> broker \<Rightarrow> pyval result \<times> entity \<times> broker" where
  "refresh_status STATUS_SCHEMA z b =
     (case broker_get (status_path z) (Some STATUS_SCHEMA) b of
        (Inl e, b') \<Rightarrow> (Inl e, z, b')
      | (Inr status, b') \<Rightarrow> (Inr status, update_status z status, b'))"

text \<open>
  The status accessors are \<^verbatim>\<open>self._status.get(KEY)\<close>; \<^verbatim>\<open>get\<close> is a method of a dict
  only.
\<close>

definition status_get :: "entity \<Rightarrow> string \<Rightarrow> pyval result" where
  "status_get z k = (case z_status z of PDict d \<Rightarrow> Inr (dict_get d k) | _ \<Rightarrow> Inl AttributeError)"

definition activeFaults :: "entity \<Rightarrow> pyval result" where
  "activeFaults z = status_get z SZ_ACTIVE_FAULTS"

definition temperatureStatus :: "entity \<Rightarrow> pyval result" where
  "temperatureStatus z = status_get z SZ_TEMPERATURE_STATUS"

definition setpointStatus :: "entity \<Rightarrow> pyval result" where
  "setpointStatus z = status_get z SZ_SETPOINT_STATUS"

definition stateStatus :: "entity \<Rightarrow> pyval result" where
  "stateStatus z = status_get z SZ_STATE_STATUS"

section \<open>Mode commands\<close>

text \<open>
  \<^verbatim>\<open>HotWater._set_mode\<close>, \<^verbatim>\<open>set_on\<close>, \<^verbatim>\<open>set_off\<close>, \<^verbatim>\<open>set_auto\<close> and \<^verbatim>\<open>Zone._set_mode\<close>,
  \<^verbatim>\<open>set_temperature\<close>, \<^verbatim>\<open>cancel_temp_override\<close>. The format \<^verbatim>\<open>API_STRFTIME\<close> is a constant
  of \<^verbatim>\<open>const.py\<close>, outside the sources: \<open>strftime\<close>, the argument of the operations that
  take \<^verbatim>\<open>until\<close>, stands for \<^verbatim>\<open>until.strftime(API_STRFTIME)\<close>.
\<close>

definition HotWater_set_mode :: "entity \<Rightarrow> pyval \<Rightarrow> broker \<Rightarrow> unit result \<times> broker" where
  "HotWater_set_mode z state b =
     (case broker_put (z_type z @ ''/'' @ py_str (z_id z) @ ''/state'') state None b of
        (Inl e, b') \<Rightarrow> (Inl e, b')
      | (Inr _, b') \<Rightarrow> (Inr (), b'))"

definition set_on :: "('dt \<Rightarrow> string) \<Rightarrow> entity \<Rightarrow> 'dt option \<Rightarrow> broker \<Rightarrow> unit result \<times> broker" where
  "set_on strftime z until b =
     (let mode =
        (case until of
           None \<Rightarrow> PDict [(''Mode'', PStr ''PermanentOverride''), (''State'', PStr ''On''),
                          (''UntilTime'', PNone)]
         | Some t \<Rightarrow> PDict [(''Mode'', PStr ''TemporaryOverride''), (''State'', PStr ''On''),
                            (''UntilTime'', PStr (strftime t))])
      in HotWater_set_mode z mode b)"

definition set_off :: "('dt \<Rightarrow> string) \<Rightarrow> entity \<Rightarrow> 'dt option \<Rightarrow> broker \<Rightarrow> unit result \<times> broker" where
  "set_off strftime z until b =
     (let mode =
        (case until of
           None \<Rightarrow> PDict [(''Mode'', PStr ''PermanentOverride''), (''State'', PStr ''Off''),
                          (''UntilTime'', PNone)]
         | Some t \<Rightarrow> PDict [(''Mode'', PStr ''TemporaryOverride''), (''State'', PStr ''Off''),
                            (''UntilTime'', PStr (strftime t))])
      in HotWater_set_mode z mode b)"

definition set_auto :: "entity \<Rightarrow> broker \<Rightarrow> unit result \<times> broker" where
  "set_auto z b =
     HotWater_set_mode z
       (PDict [(''Mode'', PStr ''FollowSchedule''), (''State'', PStr []), (''UntilTime'', PNone)]) b"

definition Zone_set_mode :: "entity \<Rightarrow> pyval \<Rightarrow> broker \<Rightarrow> unit result \<times> broker" where
  "Zone_set_mode z heat_setpoint b =
     (case broker_put (z_type z @ ''/'' @ py_str (z_id z) @ ''/heatSetpoint'') heat_setpoint None b of
        (Inl e, b') \<Rightarrow> (Inl e, b')
      | (Inr _, b') \<Rightarrow> (Inr (), b'))"

definition set_temperature ::
  "('dt \<Rightarrow> string) \<Rightarrow> entity \<Rightarrow> pyval \<Rightarrow> 'dt option \<Rightarrow> broker \<Rightarrow> unit result \<times> broker" where
  "set_temperature strftime z temperature until b =
     (let mode =
        (case until of
           None \<Rightarrow> PDict [(SZ_SETPOINT_MODE, PStr SZ_PERMANENT_OVERRIDE),
                          (SZ_HEAT_SETPOINT_VALUE, temperature), (SZ_TIME_UNTIL, PNone)]
         | Some t \<Rightarrow> PDict [(SZ_SETPOINT_MODE, PStr SZ_TEMPORARY_OVERRIDE),
                            (SZ_HEAT_SETPOINT_VALUE, temperature),
                            (SZ_TIME_UNTIL, PStr (strftime t))])
      in Zone_set_mode z mode b)"

definition cancel_temp_override :: "entity \<Rightarrow> broker \<Rightarrow> unit result \<times> broker" where
  "cancel_temp_override z b =
     Zone_set_mode z
       (PDict [(SZ_SETPOINT_MODE, PStr SZ_FOLLOW_SCHEDULE),
               (SZ_HEAT_SETPOINT_VALUE, PFloat ''0.0''), (SZ_TIME_UNTIL, PNone)]) b"

section \<open>Deprecated operations\<close>

text \<open>
  \<^verbatim>\<open>_ZoneBaseDeprecated\<close> and \<^verbatim>\<open>HotWaterDeprecated\<close>: every body is one
  \<^verbatim>\<open>raise NotImplementedError(...)\<close>. The methods of \<^verbatim>\<open>HotWaterDeprecated\<close> take
  \<^verbatim>\<open>*args, **kwargs\<close>.
\<close>

definition zone_type :: "entity \<Rightarrow> broker \<Rightarrow> pyval result \<times> broker" where
  "zone_type z b = (Inl (NotImplementedError ''ZoneBase.zone_type is deprecated, use ._type''), b)"

definition ZoneBaseDeprecated_schedule :: "entity \<Rightarrow> broker \<Rightarrow> pyval result \<times> broker" where
  "ZoneBaseDeprecated_schedule z b =
     (Inl (NotImplementedError ''ZoneBase.schedule() is deprecrated, use .get_schedule()''), b)"

definition HotWaterDeprecated_zoneId :: "entity \<Rightarrow> broker \<Rightarrow> pyval result \<times> broker" where
  "HotWaterDeprecated_zoneId z b =
     (Inl (NotImplementedError ''HotWater.zoneId is deprecated, use .dhwId (or ._id)''), b)"

definition get_dhw_state ::
  "entity \<Rightarrow> pyval list \<Rightarrow> (string \<times> pyval) list \<Rightarrow> broker \<Rightarrow> pyval result \<times> broker" where
  "get_dhw_state z args kwargs b =
     (Inl (NotImplementedError ''HotWater.get_dhw_state() is deprecated, use .update_status()''), b)"

definition set_dhw_on ::
  "entity \<Rightarrow> pyval list \<Rightarrow> (string \<times> pyval) list \<Rightarrow> broker \<Rightarrow> pyval result \<times> broker" where
  "set_dhw_on z args kwargs b =
     (Inl (NotImplementedError ''HotWater.set_dhw_on() is deprecated, use .set_on()''), b)"

definition set_dhw_off ::
  "entity \<Rightarrow> pyval list \<Rightarrow> (string \<times> pyval) list \<Rightarrow> broker \<Rightarrow> pyval result \<times> broker" where
  "set_dhw_off z args kwargs b =
     (Inl (NotImplementedError ''HotWater.set_dhw_off() is deprecated, use .set_off()''), b)"

definition set_dhw_auto ::
  "entity \<Rightarrow> pyval list \<Rightarrow> (string \<times> pyval) list \<Rightarrow> broker \<Rightarrow> pyval result \<times> broker" where
  "set_dhw_auto z args kwargs b =
     (Inl (NotImplementedError ''HotWater.set_dhw_auto() is deprecated, use .set_auto()''), b)"

text \<open>
  Attribute lookup follows the method resolution order of the class:
  \<^verbatim>\<open>class HotWater(HotWaterDeprecated, _ZoneBase)\<close>, \<^verbatim>\<open>class Zone(_ZoneBase)\<close>,
  \<^verbatim>\<open>class _ZoneBase(_ZoneBaseDeprecated)\<close>. \<open>attrs\<close> lists what each class body defines.
\<close>

datatype cls = C_ZoneBaseDeprecated | C_ZoneBase | C_Zone | C_HotWaterDeprecated | C_HotWater

fun mro :: "cls \<Rightarrow> cls list" where
  "mro C_ZoneBaseDeprecated = [C_ZoneBaseDeprecated]"
| "mro C_ZoneBase = [C_ZoneBase, C_ZoneBaseDeprecated]"
| "mro C_Zone = [C_Zone, C_ZoneBase, C_ZoneBaseDeprecated]"
| "mro C_HotWaterDeprecated = [C_HotWaterDeprecated]"
| "mro C_HotWater = [C_HotWater, C_HotWaterDeprecated, C_ZoneBase, C_ZoneBaseDeprecated]"

fun attrs :: "cls \<Rightarrow> string list" where
  "attrs C_ZoneBaseDeprecated = [''zone_type'', ''schedule'']"
| "attrs C_ZoneBase =
     [''STATUS_SCHEMA'', ''__init__'', ''__str__'', ''_refresh_status'', ''_update_status'',
      ''activeFaults'', ''temperatureStatus'', ''get_schedule'', ''set_schedule'']"
| "attrs C_Zone =
     [''STATUS_SCHEMA'', ''_type'', ''__init__'', ''zoneId'', ''modelType'',
      ''setpointCapabilities'', ''scheduleCapabilities'', ''zoneType'', ''name'',
      ''setpointStatus'', ''_set_mode'', ''set_temperature'', ''cancel_temp_override'']"
| "attrs C_HotWaterDeprecated =
     [''zoneId'', ''get_dhw_state'', ''set_dhw_on'', ''set_dhw_off'', ''set_dhw_auto'']"
| "attrs C_HotWater =
     [''STATUS_SCHEMA'', ''_type'', ''__init__'', ''dhwId'', ''dhwStateCapabilitiesResponse'',
      ''scheduleCapabilitiesResponse'', ''name'', ''stateStatus'', ''_set_mode'', ''set_on'',
      ''set_off'', ''set_auto'']"

definition resolve :: "cls \<Rightarrow> string \<Rightarrow> cls option" where
  "resolve c a = find (\<lambda>k. a \<in> set (attrs k)) (mro c)"

section \<open>Substrings\<close>

text \<open>\<^verbatim>\<open>s.startswith(p)\<close> and \<^verbatim>\<open>p in s\<close> on strings.\<close>

fun starts_with :: "string \<Rightarrow> string \<Rightarrow> bool" where
  "starts_with s [] = True"
| "starts_with [] (p # ps) = False"
| "starts_with (c # cs) (p # ps) = (c = p \<and> starts_with cs ps)"

fun contains :: "string \<Rightarrow> string \<Rightarrow> bool" where
  "contains [] p = (p = [])"
| "contains (c # cs) p = (starts_with (c # cs) p \<or> contains cs p)"

section \<open>Names, deprecated operations, construction\<close>

lemma Zone_name_item: "Zone_name z = dict_item (z_config z) SZ_NAME"
  by (simp add: Zone_name_def dict_get_def dict_item_def split: option.splits)

text \<open>
  Claim C10. The \<^verbatim>\<open>name\<close> of a hot-water entity is the constant string
  \<^verbatim>\<open>Domestic Hot Water\<close> for every entity state, whatever its config and status hold and
  also after a refresh with any broker; the \<^verbatim>\<open>name\<close> of a heating zone is the
  \<^verbatim>\<open>name\<close> item of its config.
\<close>

theorem HotWater_name_constant:
  "HotWater_name z = Inr (PStr ''Domestic Hot Water'')
   \<and> HotWater_name (fst (snd (refresh_status sch z b))) = Inr (PStr ''Domestic Hot Water'')
   \<and> Zone_name z' = dict_item (z_config z') ''name''"
  by (simp add: HotWater_name_def Zone_name_item SZ_NAME_def)

text \<open>
  Claim C6. Each deprecated operation (\<^verbatim>\<open>zone_type\<close> and \<^verbatim>\<open>schedule()\<close> of the zone
  base; \<^verbatim>\<open>zoneId\<close>, \<^verbatim>\<open>get_dhw_state\<close>, \<^verbatim>\<open>set_dhw_on\<close>, \<^verbatim>\<open>set_dhw_off\<close>,
  \<^verbatim>\<open>set_dhw_auto\<close> of hot water) raises \<^verbatim>\<open>NotImplementedError\<close> for every entity,
  every argument list and every broker; its message names the replacement; the broker,
  and so its log of invocations, is unchanged. No subclass overrides one of them: each
  name resolves to the class of the deprecated operations.
\<close>

theorem deprecated_always_fail:
  "(\<exists>m. zone_type z b = (Inl (NotImplementedError m), b) \<and> contains m ''use ._type'')
   \<and> (\<exists>m. ZoneBaseDeprecated_schedule z b = (Inl (NotImplementedError m), b) \<and> contains m ''use .get_schedule()'')
   \<and> (\<exists>m. HotWaterDeprecated_zoneId z b = (Inl (NotImplementedError m), b)
          \<and> contains m ''use .dhwId'')
   \<and> (\<exists>m. get_dhw_state z args kwargs b = (Inl (NotImplementedError m), b)
          \<and> contains m ''use .update_status()'')
   \<and> (\<exists>m. set_dhw_on z args kwargs b = (Inl (NotImplementedError m), b)
          \<and> contains m ''use .set_on()'')
   \<and> (\<exists>m. set_dhw_off z args kwargs b = (Inl (NotImplementedError m), b)
          \<and> contains m ''use .set_off()'')
   \<and> (\<exists>m. set_dhw_auto z args kwargs b = (Inl (NotImplementedError m), b)
          \<and> contains m ''use .set_auto()'')
   \<and> resolve C_Zone ''zone_type'' = Some C_ZoneBaseDeprecated
   \<and> resolve C_Zone ''schedule'' = Some C_ZoneBaseDeprecated
   \<and> resolve C_HotWater ''zone_type'' = Some C_ZoneBaseDeprecated
   \<and> resolve C_HotWater ''schedule'' = Some C_ZoneBaseDeprecated
   \<and> resolve C_HotWater ''zoneId'' = Some C_HotWaterDeprecated
   \<and> resolve C_HotWater ''get_dhw_state'' = Some C_HotWaterDeprecated
   \<and> resolve C_HotWater ''set_dhw_on'' = Some C_HotWaterDeprecated
   \<and> resolve C_HotWater ''set_dhw_off'' = Some C_HotWaterDeprecated
   \<and> resolve C_HotWater ''set_dhw_auto'' = Some C_HotWaterDeprecated"
proof -
  have 1: "\<exists>m. zone_type z b = (Inl (NotImplementedError m), b) \<and> contains m ''use ._type''"
    by (simp add: zone_type_def)
  have 2: "\<exists>m. ZoneBaseDeprecated_schedule z b = (Inl (NotImplementedError m), b)
             \<and> contains m ''use .get_schedule()''"
    by (simp add: ZoneBaseDeprecated_schedule_def)
  have 3: "\<exists>m. HotWaterDeprecated_zoneId z b = (Inl (NotImplementedError m), b)
             \<and> contains m ''use .dhwId''"
    by (simp add: HotWaterDeprecated_zoneId_def)
  have 4: "\<exists>m. get_dhw_state z args kwargs b = (Inl (NotImplementedError m), b)
             \<and> contains m ''use .update_status()''"
    by (simp add: get_dhw_state_def)
  have 5: "\<exists>m. set_dhw_on z args kwargs b = (Inl (NotImplementedError m), b)
             \<and> contains m ''use .set_on()''"
    by (simp add: set_dhw_on_def)
  have 6: "\<exists>m. set_dhw_off z args kwargs b = (Inl (NotImplementedError m), b)
             \<and> contains m ''use .set_off()''"
    by (simp add: set_dhw_off_def)
  have 7: "\<exists>m. set_dhw_auto z args kwargs b = (Inl (NotImplementedError m), b)
             \<and> contains m ''use .set_auto()''"
    by (simp add: set_dhw_auto_def)
  have 8: "resolve C_Zone ''zone_type'' = Some C_ZoneBaseDeprecated"
    "resolve C_Zone ''schedule'' = Some C_ZoneBaseDeprecated"
    "resolve C_HotWater ''zone_type'' = Some C_ZoneBaseDeprecated"
    "resolve C_HotWater ''schedule'' = Some C_ZoneBaseDeprecated"
    "resolve C_HotWater ''zoneId'' = Some C_HotWaterDeprecated"
    "resolve C_HotWater ''get_dhw_state'' = Some C_HotWaterDeprecated"
    "resolve C_HotWater ''set_dhw_on'' = Some C_HotWaterDeprecated"
    "resolve C_HotWater ''set_dhw_off'' = Some C_HotWaterDeprecated"
    "resolve C_HotWater ''set_dhw_auto'' = Some C_HotWaterDeprecated"
    by (simp_all add: resolve_def)
  from 1 2 3 4 5 6 7 8 show ?thesis by blast
qed

lemma Zone_init_cases:
  "Zone_init c =
     (case map_of c ''zoneId'' of
        None \<Rightarrow> Inl (KeyError ''zoneId'')
      | Some i \<Rightarrow>
          if truthy i
          then Inr \<lparr>z_id = i, z_type = ''temperatureZone'', z_config = c, z_status = PDict []\<rparr>
          else Inl (AssertionError ''Invalid config dict''))"
  by (simp add: Zone_init_def zoneId_def ZoneBase_init_def dict_item_def SZ_ZONE_ID_def
      SZ_TEMPERATURE_ZONE_def split: option.splits)

lemma HotWater_init_cases:
  "HotWater_init c =
     (case map_of c ''dhwId'' of
        None \<Rightarrow> Inl (KeyError ''dhwId'')
      | Some i \<Rightarrow>
          if truthy i
          then Inr \<lparr>z_id = i, z_type = ''domesticHotWater'', z_config = c, z_status = PDict []\<rparr>
          else Inl (AssertionError ''Invalid config dict''))"
  by (simp add: HotWater_init_def dhwId_def ZoneBase_init_def dict_item_def SZ_DHW_ID_def
      SZ_DOMESTIC_HOT_WATER_def split: option.splits)

text \<open>
  Claim C7, as stated, at a config without the identifier: the constructor does not fail
  with the error of its integrity check (\<^verbatim>\<open>AssertionError("Invalid config dict")\<close>) but
  with the \<^verbatim>\<open>KeyError\<close> of the subscript \<^verbatim>\<open>self._config[SZ_ZONE_ID]\<close>, for both classes.
\<close>

theorem init_missing_id_counterexample:
  "map_of ([] :: (string \<times> pyval) list) ''zoneId'' = None
   \<and> Zone_init [] = Inl (KeyError ''zoneId'')
   \<and> Zone_init [] \<noteq> Inl (AssertionError ''Invalid config dict'')
   \<and> HotWater_init [(''name'', PStr ''dhw'')] = Inl (KeyError ''dhwId'')
   \<and> HotWater_init [(''name'', PStr ''dhw'')] \<noteq> Inl (AssertionError ''Invalid config dict'')"
  by (simp add: Zone_init_cases HotWater_init_cases)

text \<open>
  Claim C7, amended. Constructing a zone entity from a config whose identifier field
  (\<^verbatim>\<open>zoneId\<close> for a heating zone, \<^verbatim>\<open>dhwId\<close> for hot water) is missing fails with
  \<^verbatim>\<open>KeyError\<close> naming the field; from a config whose identifier is the empty string it
  fails with \<^verbatim>\<open>AssertionError("Invalid config dict")\<close>; no entity is created in either
  case. When the identifier is a non-empty string, construction succeeds, the entity's id
  is that identifier, its config is the payload and its status cache is empty.
\<close>

theorem init_identifier_checked:
  "(map_of c1 ''zoneId'' = None \<longrightarrow> Zone_init c1 = Inl (KeyError ''zoneId''))
   \<and> (map_of c2 ''zoneId'' = Some (PStr []) \<longrightarrow>
        Zone_init c2 = Inl (AssertionError ''Invalid config dict''))
   \<and> (map_of c3 ''zoneId'' = Some (PStr s) \<and> s \<noteq> [] \<longrightarrow>
        (\<exists>z. Zone_init c3 = Inr z \<and> z_id z = PStr s \<and> z_type z = ''temperatureZone''
           \<and> z_config z = c3 \<and> z_status z = PDict []))
   \<and> (map_of d1 ''dhwId'' = None \<longrightarrow> HotWater_init d1 = Inl (KeyError ''dhwId''))
   \<and> (map_of d2 ''dhwId'' = Some (PStr []) \<longrightarrow>
        HotWater_init d2 = Inl (AssertionError ''Invalid config dict''))
   \<and> (map_of d3 ''dhwId'' = Some (PStr t) \<and> t \<noteq> [] \<longrightarrow>
        (\<exists>z. HotWater_init d3 = Inr z \<and> z_id z = PStr t \<and> z_type z = ''domesticHotWater''
           \<and> z_config z = d3 \<and> z_status z = PDict []))"
  by (simp add: Zone_init_cases HotWater_init_cases)

theorem init_identifier_checked_witness:
  "Zone_init [(''name'', PStr ''Kitchen'')] = Inl (KeyError ''zoneId'')
   \<and> Zone_init [(''zoneId'', PStr [])] = Inl (AssertionError ''Invalid config dict'')
   \<and> (\<exists>z. Zone_init [(''zoneId'', PStr ''3432521''), (''name'', PStr ''Kitchen'')] = Inr z
         \<and> z_id z = PStr ''3432521'')
   \<and> HotWater_init [] = Inl (KeyError ''dhwId'')
   \<and> HotWater_init [(''dhwId'', PStr [])] = Inl (AssertionError ''Invalid config dict'')
   \<and> (\<exists>z. HotWater_init [(''dhwId'', PStr ''3933910'')] = Inr z \<and> z_id z = PStr ''3933910'')"
  using init_identifier_checked
    [of "[(''name'', PStr ''Kitchen'')]" "[(''zoneId'', PStr [])]"
        "[(''zoneId'', PStr ''3432521''), (''name'', PStr ''Kitchen'')]" "''3432521''"
        "[]" "[(''dhwId'', PStr [])]" "[(''dhwId'', PStr ''3933910'')]" "''3933910''"]
  by auto

section \<open>Refresh and status accessors\<close>

lemma refresh_status_ok:
  assumes "respond b (calls b) (GET (status_path z)) = Inr p" and "sch p"
  shows "refresh_status sch z b =
           (Inr p, z\<lparr>z_status := p\<rparr>, b\<lparr>calls := calls b @ [GET (status_path z)]\<rparr>)"
  using assms by (simp add: refresh_status_def broker_get_def validated_def update_status_def)

lemma refresh_status_failed:
  assumes "fst (broker_get (status_path z) (Some sch) b) = Inl e"
  shows "refresh_status sch z b = (Inl e, z, snd (broker_get (status_path z) (Some sch) b))"
  using assms by (cases "broker_get (status_path z) (Some sch) b") (simp add: refresh_status_def)

text \<open>
  Claim C3. When the remote side answers the status request with a dict \<open>PDict d\<close> that
  the variant's status schema accepts, \<^verbatim>\<open>_refresh_status\<close> makes exactly one broker
  invocation, a GET on \<^verbatim>\<open>{type}/{id}/status\<close>, returns that payload and replaces the
  status cache by it, leaving id, type and config as they were. Afterwards
  \<^verbatim>\<open>activeFaults\<close>, \<^verbatim>\<open>temperatureStatus\<close>, \<^verbatim>\<open>setpointStatus\<close> and \<^verbatim>\<open>stateStatus\<close> each
  return the value the payload holds under the accessor's key, and \<^verbatim>\<open>None\<close> when the
  payload has no such key. An entity that has just been constructed has an empty cache,
  and every accessor returns \<^verbatim>\<open>None\<close>.
\<close>

theorem refresh_then_accessors:
  assumes "respond b (calls b) (GET (z_type z @ ''/'' @ py_str (z_id z) @ ''/status'')) = Inr (PDict d)"
    and "sch (PDict d)"
    and "Zone_init c = Inr z0" and "HotWater_init c' = Inr h0"
  shows "(\<exists>z' b'. refresh_status sch z b = (Inr (PDict d), z', b')
           \<and> calls b' = calls b @ [GET (z_type z @ ''/'' @ py_str (z_id z) @ ''/status'')]
           \<and> z_status z' = PDict d
           \<and> z_id z' = z_id z \<and> z_type z' = z_type z \<and> z_config z' = z_config z
           \<and> activeFaults z' = Inr (case map_of d ''activeFaults'' of None \<Rightarrow> PNone | Some v \<Rightarrow> v)
           \<and> temperatureStatus z' =
               Inr (case map_of d ''temperatureStatus'' of None \<Rightarrow> PNone | Some v \<Rightarrow> v)
           \<and> setpointStatus z' =
               Inr (case map_of d ''setpointStatus'' of None \<Rightarrow> PNone | Some v \<Rightarrow> v)
           \<and> stateStatus z' =
               Inr (case map_of d ''stateStatus'' of None \<Rightarrow> PNone | Some v \<Rightarrow> v))
         \<and> activeFaults z0 = Inr PNone \<and> temperatureStatus z0 = Inr PNone
         \<and> setpointStatus z0 = Inr PNone
         \<and> activeFaults h0 = Inr PNone \<and> temperatureStatus h0 = Inr PNone
         \<and> stateStatus h0 = Inr PNone"
proof -
  have p: "respond b (calls b) (GET (status_path z)) = Inr (PDict d)"
    using assms(1) by (simp add: status_path_def)
  have 1: "\<exists>z' b'. refresh_status sch z b = (Inr (PDict d), z', b')
           \<and> calls b' = calls b @ [GET (z_type z @ ''/'' @ py_str (z_id z) @ ''/status'')]
           \<and> z_status z' = PDict d
           \<and> z_id z' = z_id z \<and> z_type z' = z_type z \<and> z_config z' = z_config z
           \<and> activeFaults z' = Inr (case map_of d ''activeFaults'' of None \<Rightarrow> PNone | Some v \<Rightarrow> v)
           \<and> temperatureStatus z' =
               Inr (case map_of d ''temperatureStatus'' of None \<Rightarrow> PNone | Some v \<Rightarrow> v)
           \<and> setpointStatus z' =
               Inr (case map_of d ''setpointStatus'' of None \<Rightarrow> PNone | Some v \<Rightarrow> v)
           \<and> stateStatus z' =
               Inr (case map_of d ''stateStatus'' of None \<Rightarrow> PNone | Some v \<Rightarrow> v)"
    unfolding refresh_status_ok [of b z "PDict d" sch, OF p assms(2)]
    by (simp add: status_path_def activeFaults_def temperatureStatus_def setpointStatus_def
        stateStatus_def status_get_def dict_get_def SZ_ACTIVE_FAULTS_def
        SZ_TEMPERATURE_STATUS_def SZ_SETPOINT_STATUS_def SZ_STATE_STATUS_def)
  have "z_status z0 = PDict []"
    using assms(3) by (auto simp: Zone_init_cases split: option.splits if_splits)
  then have 2: "activeFaults z0 = Inr PNone \<and> temperatureStatus z0 = Inr PNone
           \<and> setpointStatus z0 = Inr PNone"
    by (simp add: activeFaults_def temperatureStatus_def setpointStatus_def status_get_def
        dict_get_def)
  have "z_status h0 = PDict []"
    using assms(4) by (auto simp: HotWater_init_cases split: option.splits if_splits)
  then have 3: "activeFaults h0 = Inr PNone \<and> temperatureStatus h0 = Inr PNone
           \<and> stateStatus h0 = Inr PNone"
    by (simp add: activeFaults_def temperatureStatus_def stateStatus_def status_get_def
        dict_get_def)
  from 1 2 3 show ?thesis by blast
qed

text \<open>
  A heating zone whose remote side answers with active faults and a temperature status
  but no setpoint status.
\<close>

definition example_zone :: entity where
  "example_zone =
     \<lparr>z_id = PStr ''3432521'', z_type = ''temperatureZone'',
      z_config = [(''zoneId'', PStr ''3432521''), (''name'', PStr ''Kitchen'')],
      z_status = PDict []\<rparr>"

definition example_dhw :: entity where
  "example_dhw =
     \<lparr>z_id = PStr ''3933910'', z_type = ''domesticHotWater'',
      z_config = [(''dhwId'', PStr ''3933910'')], z_status = PDict []\<rparr>"

definition example_status :: "(string \<times> pyval) list" where
  "example_status =
     [(''zoneId'', PStr ''3432521''), (''activeFaults'', PList []),
      (''temperatureStatus'', PDict [(''temperature'', PFloat ''19.5''),
                                     (''isAvailable'', PBool True)])]"

definition example_broker :: broker where
  "example_broker =
     \<lparr>calls = [],
      respond = (\<lambda>log r. case r of
                   GET p \<Rightarrow> if p = ''temperatureZone/3432521/status''
                            then Inr (PDict example_status) else Inl (FailedRequest p)
                 | PUT p v \<Rightarrow> Inr PNone)\<rparr>"

definition is_dict :: "pyval \<Rightarrow> bool" where
  "is_dict v = (case v of PDict d \<Rightarrow> True | _ \<Rightarrow> False)"

theorem refresh_then_accessors_witness:
  "(\<exists>z' b'. refresh_status is_dict example_zone example_broker = (Inr (PDict example_status), z', b')
      \<and> calls b' = [GET ''temperatureZone/3432521/status'']
      \<and> z_status z' = PDict example_status
      \<and> activeFaults z' = Inr (PList [])
      \<and> temperatureStatus z' =
          Inr (PDict [(''temperature'', PFloat ''19.5''), (''isAvailable'', PBool True)])
      \<and> setpointStatus z' = Inr PNone)
   \<and> activeFaults example_zone = Inr PNone \<and> stateStatus example_dhw = Inr PNone"
proof -
  have 1: "respond example_broker (calls example_broker)
             (GET (z_type example_zone @ ''/'' @ py_str (z_id example_zone) @ ''/status''))
           = Inr (PDict example_status)"
    by (simp add: example_broker_def example_zone_def py_str_def)
  have 2: "is_dict (PDict example_status)"
    by (simp add: is_dict_def)
  have 3: "Zone_init [(''zoneId'', PStr ''3432521''), (''name'', PStr ''Kitchen'')] = Inr example_zone"
    by (simp add: Zone_init_cases example_zone_def)
  have 4: "HotWater_init [(''dhwId'', PStr ''3933910'')] = Inr example_dhw"
    by (simp add: HotWater_init_cases example_dhw_def)
  have 5: "activeFaults example_dhw = Inr PNone"
    by (simp add: activeFaults_def status_get_def example_dhw_def dict_get_def)
  show ?thesis
    using refresh_then_accessors [where sch = is_dict, OF 1 2 3 4] 5
    by (auto simp: example_status_def example_zone_def example_broker_def py_str_def)
qed

text \<open>
  Claim C9. When the broker's GET of \<^verbatim>\<open>_refresh_status\<close> fails, by an error of the
  remote side or by a response that the schema rejects, the refresh fails with the same
  error and the entity, its status cache included, is what it was before the call.
\<close>

theorem refresh_failure_keeps_cache:
  assumes "fst (broker_get (status_path z) (Some sch) b) = Inl e"
  shows "fst (refresh_status sch z b) = Inl e \<and> fst (snd (refresh_status sch z b)) = z
         \<and> z_status (fst (snd (refresh_status sch z b))) = z_status z"
  by (simp add: refresh_status_failed [OF assms])

theorem refresh_failure_keeps_cache_witness:
  "fst (refresh_status is_dict example_dhw example_broker) = Inl (FailedRequest ''domesticHotWater/3933910/status'')
   \<and> fst (snd (refresh_status is_dict example_dhw example_broker)) = example_dhw
   \<and> fst (refresh_status (\<lambda>v. False) example_zone example_broker) = Inl InvalidSchema
   \<and> z_status (fst (snd (refresh_status (\<lambda>v. False) example_zone example_broker))) = PDict []"
proof -
  have 1: "fst (broker_get (status_path example_dhw) (Some is_dict) example_broker)
             = Inl (FailedRequest ''domesticHotWater/3933910/status'')"
    by (simp add: broker_get_def validated_def status_path_def example_dhw_def
        example_broker_def py_str_def)
  have 2: "fst (broker_get (status_path example_zone) (Some (\<lambda>v. False)) example_broker)
             = Inl InvalidSchema"
    by (simp add: broker_get_def validated_def status_path_def example_zone_def
        example_broker_def py_str_def)
  show ?thesis
    using refresh_failure_keeps_cache [OF 1] refresh_failure_keeps_cache [OF 2]
    by (simp add: example_zone_def)
qed

section \<open>Mode command payloads\<close>

lemma HotWater_set_mode_calls:
  "calls (snd (HotWater_set_mode z m b)) =
     calls b @ [PUT (z_type z @ ''/'' @ py_str (z_id z) @ ''/state'') m]"
  by (simp add: HotWater_set_mode_def broker_put_def split: sum.splits prod.splits)

lemma Zone_set_mode_calls:
  "calls (snd (Zone_set_mode z m b)) =
     calls b @ [PUT (z_type z @ ''/'' @ py_str (z_id z) @ ''/heatSetpoint'') m]"
  by (simp add: Zone_set_mode_def broker_put_def split: sum.splits prod.splits)

text \<open>
  Claim C5. For a hot-water entity \<open>h\<close> and a heating zone \<open>z\<close> made by their
  constructors, every mode command makes exactly one broker invocation, a PUT on
  \<^verbatim>\<open>domesticHotWater/{id}/state\<close> or \<^verbatim>\<open>temperatureZone/{id}/heatSetpoint\<close>, whose body
  is: for \<^verbatim>\<open>set_on\<close> and \<^verbatim>\<open>set_off\<close> without \<^verbatim>\<open>until\<close>, Mode PermanentOverride, State
  On or Off, UntilTime null, and with \<^verbatim>\<open>until\<close>, Mode TemporaryOverride, State On or
  Off, UntilTime the formatted time; for \<^verbatim>\<open>set_auto\<close>, Mode FollowSchedule, State the
  empty string, UntilTime null; for \<^verbatim>\<open>set_temperature\<close> without \<^verbatim>\<open>until\<close>, SetpointMode
  PermanentOverride, HeatSetpointValue the temperature, TimeUntil null, and with
  \<^verbatim>\<open>until\<close>, SetpointMode TemporaryOverride, HeatSetpointValue the temperature, TimeUntil
  the formatted time; for \<^verbatim>\<open>cancel_temp_override\<close>, SetpointMode FollowSchedule,
  HeatSetpointValue 0.0, TimeUntil null.
\<close>

theorem mode_command_payloads:
  assumes "HotWater_init ch = Inr h" and "Zone_init cz = Inr z"
  shows
    "calls (snd (set_on fmt h None b)) =
       calls b @ [PUT (''domesticHotWater/'' @ py_str (z_id h) @ ''/state'')
         (PDict [(''Mode'', PStr ''PermanentOverride''), (''State'', PStr ''On''),
                 (''UntilTime'', PNone)])]
     \<and> calls (snd (set_on fmt h (Some t) b)) =
       calls b @ [PUT (''domesticHotWater/'' @ py_str (z_id h) @ ''/state'')
         (PDict [(''Mode'', PStr ''TemporaryOverride''), (''State'', PStr ''On''),
                 (''UntilTime'', PStr (fmt t))])]
     \<and> calls (snd (set_off fmt h None b)) =
       calls b @ [PUT (''domesticHotWater/'' @ py_str (z_id h) @ ''/state'')
         (PDict [(''Mode'', PStr ''PermanentOverride''), (''State'', PStr ''Off''),
                 (''UntilTime'', PNone)])]
     \<and> calls (snd (set_off fmt h (Some t) b)) =
       calls b @ [PUT (''domesticHotWater/'' @ py_str (z_id h) @ ''/state'')
         (PDict [(''Mode'', PStr ''TemporaryOverride''), (''State'', PStr ''Off''),
                 (''UntilTime'', PStr (fmt t))])]
     \<and> calls (snd (set_auto h b)) =
       calls b @ [PUT (''domesticHotWater/'' @ py_str (z_id h) @ ''/state'')
         (PDict [(''Mode'', PStr ''FollowSchedule''), (''State'', PStr []),
                 (''UntilTime'', PNone)])]
     \<and> calls (snd (set_temperature fmt z v None b)) =
       calls b @ [PUT (''temperatureZone/'' @ py_str (z_id z) @ ''/heatSetpoint'')
         (PDict [(''SetpointMode'', PStr ''PermanentOverride''), (''HeatSetpointValue'', v),
                 (''TimeUntil'', PNone)])]
     \<and> calls (snd (set_temperature fmt z v (Some t) b)) =
       calls b @ [PUT (''temperatureZone/'' @ py_str (z_id z) @ ''/heatSetpoint'')
         (PDict [(''SetpointMode'', PStr ''TemporaryOverride''), (''HeatSetpointValue'', v),
                 (''TimeUntil'', PStr (fmt t))])]
     \<and> calls (snd (cancel_temp_override z b)) =
       calls b @ [PUT (''temperatureZone/'' @ py_str (z_id z) @ ''/heatSetpoint'')
         (PDict [(''SetpointMode'', PStr ''FollowSchedule''),
                 (''HeatSetpointValue'', PFloat ''0.0''), (''TimeUntil'', PNone)])]"
proof -
  have h: "z_type h = ''domesticHotWater''"
    using assms(1) by (auto simp: HotWater_init_cases split: option.splits if_splits)
  have z: "z_type z = ''temperatureZone''"
    using assms(2) by (auto simp: Zone_init_cases split: option.splits if_splits)
  show ?thesis
    by (simp add: set_on_def set_off_def set_auto_def set_temperature_def
        cancel_temp_override_def HotWater_set_mode_calls Zone_set_mode_calls h z
        SZ_SETPOINT_MODE_def SZ_PERMANENT_OVERRIDE_def SZ_HEAT_SETPOINT_VALUE_def
        SZ_TIME_UNTIL_def SZ_TEMPORARY_OVERRIDE_def SZ_FOLLOW_SCHEDULE_def)
qed

theorem mode_command_payloads_witness:
  "calls (snd (set_on (\<lambda>t. t) example_dhw None example_broker)) =
     [PUT ''domesticHotWater/3933910/state''
        (PDict [(''Mode'', PStr ''PermanentOverride''), (''State'', PStr ''On''),
                (''UntilTime'', PNone)])]
   \<and> calls (snd (set_temperature (\<lambda>t. t) example_zone (PFloat ''21.5'')
        (Some ''2023-11-05T22:00:00Z'') example_broker)) =
     [PUT ''temperatureZone/3432521/heatSetpoint''
        (PDict [(''SetpointMode'', PStr ''TemporaryOverride''),
                (''HeatSetpointValue'', PFloat ''21.5''),
                (''TimeUntil'', PStr ''2023-11-05T22:00:00Z'')])]"
proof -
  have 1: "HotWater_init [(''dhwId'', PStr ''3933910'')] = Inr example_dhw"
    by (simp add: HotWater_init_cases example_dhw_def)
  have 2: "Zone_init [(''zoneId'', PStr ''3432521''), (''name'', PStr ''Kitchen'')] = Inr example_zone"
    by (simp add: Zone_init_cases example_zone_def)
  have 3: "py_str (z_id example_dhw) = ''3933910''" "py_str (z_id example_zone) = ''3432521''"
    "calls example_broker = []"
    by (simp_all add: example_dhw_def example_zone_def example_broker_def py_str_def)
  show ?thesis
    using mode_command_payloads [OF 1 2, of "\<lambda>t. t" example_broker
        "''2023-11-05T22:00:00Z''" "PFloat ''21.5''"]
    by (simp add: 3)
qed

section \<open>String methods\<close>

text \<open>
  \<^verbatim>\<open>str.replace(old, new)\<close> replaces the occurrences of \<open>old\<close> from left to right without
  overlap; with an empty \<open>old\<close> it puts \<open>new\<close> before every character and at the end.
  \<^verbatim>\<open>str.capitalize()\<close> makes the first character upper case and the others lower case
  (the letters of ASCII here).
\<close>

fun replace_empty :: "string \<Rightarrow> string \<Rightarrow> string" where
  "replace_empty new [] = new"
| "replace_empty new (c # cs) = new @ c # replace_empty new cs"

fun replace_scan :: "string \<Rightarrow> string \<Rightarrow> string \<Rightarrow> string" where
  "replace_scan old new [] = []"
| "replace_scan old new (c # cs) =
     (if starts_with (c # cs) old then new @ replace_scan old new (drop (length old - 1) cs)
      else c # replace_scan old new cs)"

definition str_replace :: "string \<Rightarrow> string \<Rightarrow> string \<Rightarrow> string" where
  "str_replace s old new = (if old = [] then replace_empty new s else replace_scan old new s)"

definition to_upper :: "char \<Rightarrow> char" where
  "to_upper c =
     (case map_of (zip ''abcdefghijklmnopqrstuvwxyz'' ''ABCDEFGHIJKLMNOPQRSTUVWXYZ'') c of
        None \<Rightarrow> c | Some u \<Rightarrow> u)"

definition to_lower :: "char \<Rightarrow> char" where
  "to_lower c =
     (case map_of (zip ''ABCDEFGHIJKLMNOPQRSTUVWXYZ'' ''abcdefghijklmnopqrstuvwxyz'') c of
        None \<Rightarrow> c | Some l \<Rightarrow> l)"

definition capitalize :: "string \<Rightarrow> string" where
  "capitalize s = (case s of [] \<Rightarrow> [] | c # cs \<Rightarrow> to_upper c # map to_lower cs)"

section \<open>\<^verbatim>\<open>json.dumps\<close>\<close>

text \<open>
  \<^verbatim>\<open>json.dumps\<close> with its defaults: separators \<^verbatim>\<open>", "\<close> and \<^verbatim>\<open>": "\<close>, and
  \<^verbatim>\<open>ensure_ascii\<close>, which escapes the quote, the backslash and every character outside
  \<^verbatim>\<open>' '..'~'\<close>, a character from U+10000 on as a surrogate pair. A string is the list
  of the bytes of its UTF-8 form (a lone surrogate in its three-byte form); a byte that
  belongs to no such form is escaped as it stands.
\<close>

definition quote :: char where "quote = CHR 0x22"
definition backslash :: char where "backslash = CHR 0x5C"

definition hexdigit :: "nat \<Rightarrow> char" where
  "hexdigit n = ''0123456789abcdef'' ! n"

definition hex4 :: "nat \<Rightarrow> string" where
  "hex4 n =
     [hexdigit (n div 4096 mod 16), hexdigit (n div 256 mod 16), hexdigit (n div 16 mod 16),
      hexdigit (n mod 16)]"

definition escape_code :: "nat \<Rightarrow> string" where
  "escape_code cp =
     (if cp < 65536 then backslash # CHR ''u'' # hex4 cp
      else backslash # CHR ''u'' # hex4 (55296 + (cp - 65536) div 1024)
           @ backslash # CHR ''u'' # hex4 (56320 + (cp - 65536) mod 1024))"

definition escape_ascii :: "char \<Rightarrow> string" where
  "escape_ascii c =
     (if c = quote then [backslash, quote]
      else if c = backslash then [backslash, backslash]
      else if c = CHR 0x0A then [backslash, CHR ''n'']
      else if c = CHR 0x0D then [backslash, CHR ''r'']
      else if c = CHR 0x09 then [backslash, CHR ''t'']
      else if c = CHR 0x0C then [backslash, CHR ''f'']
      else if c = CHR 0x08 then [backslash, CHR ''b'']
      else if (of_char c :: nat) < 32 \<or> 126 < (of_char c :: nat) then escape_code (of_char c)
      else [c])"

text \<open>The continuation bytes of a UTF-8 form and what they carry.\<close>

definition conts :: "nat \<Rightarrow> string \<Rightarrow> bool" where
  "conts k cs =
     (k \<le> length cs
      \<and> list_all (\<lambda>c. 128 \<le> (of_char c :: nat) \<and> (of_char c :: nat) < 192) (take k cs))"

definition cont_bits :: "string \<Rightarrow> nat" where
  "cont_bits cs = foldl (\<lambda>a c. 64 * a + (of_char c - 128)) 0 cs"

fun escape_str :: "string \<Rightarrow> string" where
  "escape_str [] = []"
| "escape_str (c # cs) =
     (if (of_char c :: nat) < 128 then escape_ascii c @ escape_str cs
      else if 192 \<le> (of_char c :: nat) \<and> (of_char c :: nat) < 224 \<and> conts 1 cs
        then escape_code ((of_char c - 192) * 64 + cont_bits (take 1 cs)) @ escape_str (drop 1 cs)
      else if 224 \<le> (of_char c :: nat) \<and> (of_char c :: nat) < 240 \<and> conts 2 cs
        then escape_code ((of_char c - 224) * 4096 + cont_bits (take 2 cs)) @ escape_str (drop 2 cs)
      else if 240 \<le> (of_char c :: nat) \<and> (of_char c :: nat) < 248 \<and> conts 3 cs
        then escape_code ((of_char c - 240) * 262144 + cont_bits (take 3 cs)) @ escape_str (drop 3 cs)
      else escape_code (of_char c) @ escape_str cs)"

definition encode_string :: "string \<Rightarrow> string" where
  "encode_string s = quote # escape_str s @ [quote]"

fun dumps_text :: "pyval \<Rightarrow> string" where
  "dumps_text PNone = ''null''"
| "dumps_text (PBool b) = (if b then ''true'' else ''false'')"
| "dumps_text (PInt i) = show_int i"
| "dumps_text (PFloat l) = l"
| "dumps_text (PStr s) = encode_string s"
| "dumps_text (PList xs) = ''['' @ intersperse '', '' (map dumps_text xs) @ '']''"
| "dumps_text (PDict d) =
     ''{'' @ intersperse '', ''
        (map (\<lambda>kv. encode_string (fst kv) @ '': '' @ dumps_text (snd kv)) d) @ ''}''"
| "dumps_text (POther t) = []"

text \<open>
  The limits of the interpreter. A list or a dict in a value, and an array or an object
  in a text, is entered by a recursive call of the encoder or the decoder, and a call
  beyond the recursion limit raises \<^verbatim>\<open>RecursionError\<close>; how many calls are left depends
  on the call stack, and the model leaves the default limit of
  \<^verbatim>\<open>sys.getrecursionlimit()\<close> whole. Converting between \<^verbatim>\<open>int\<close> and \<^verbatim>\<open>str\<close> raises
  \<^verbatim>\<open>ValueError\<close> beyond \<^verbatim>\<open>sys.get_int_max_str_digits()\<close> digits.
\<close>

definition RECURSION_LIMIT :: nat where "RECURSION_LIMIT = 1000"
definition INT_MAX_STR_DIGITS :: nat where "INT_MAX_STR_DIGITS = 4300"

text \<open>
  The exception that the encoder raises first, if any: \<^verbatim>\<open>TypeError\<close> on an object that
  is not serializable, \<^verbatim>\<open>ValueError\<close> on an int of too many digits,
  \<^verbatim>\<open>RecursionError\<close> on a list or dict nested too deep.
\<close>

fun first_error :: "exn option list \<Rightarrow> exn option" where
  "first_error [] = None"
| "first_error (None # es) = first_error es"
| "first_error (Some e # es) = Some e"

fun encode_error :: "nat \<Rightarrow> pyval \<Rightarrow> exn option" where
  "encode_error depth (PInt i) =
     (if INT_MAX_STR_DIGITS < length (show_nat (nat \<bar>i\<bar>)) then Some ValueError else None)"
| "encode_error depth (POther t) = Some TypeError"
| "encode_error 0 (PList xs) = Some RecursionError"
| "encode_error (Suc depth) (PList xs) = first_error (map (encode_error depth) xs)"
| "encode_error 0 (PDict d) = Some RecursionError"
| "encode_error (Suc depth) (PDict d) = first_error (map (\<lambda>kv. encode_error depth (snd kv)) d)"
| "encode_error depth v = None"

definition json_dumps :: "pyval \<Rightarrow> string result" where
  "json_dumps v =
     (case encode_error RECURSION_LIMIT v of Some e \<Rightarrow> Inl e | None \<Rightarrow> Inr (dumps_text v))"

section \<open>\<^verbatim>\<open>json.loads\<close>\<close>

text \<open>
  The decoder of the \<^verbatim>\<open>json\<close> module: \<^verbatim>\<open>py_scanstring\<close> in strict mode, the number
  pattern \<^verbatim>\<open>(-?(?:0|[1-9]\d*))(\.\d+)?([eE][-+]?\d+)?\<close>, \<^verbatim>\<open>JSONArray\<close>, \<^verbatim>\<open>JSONObject\<close>
  and \<^verbatim>\<open>scan_once\<close>. It raises \<^verbatim>\<open>JSONDecodeError\<close> on a text that is not JSON,
  \<^verbatim>\<open>RecursionError\<close> on an array or object nested too deep and \<^verbatim>\<open>ValueError\<close> on an
  int of too many digits, whichever it meets first. A number with a fraction or an
  exponent is a float, kept as the literal read; any other number is an int. The
  recursion of the model is bounded by fuel as well, and \<open>json_loads\<close> gives it twice the
  length of the text, which no text uses up.
\<close>

definition is_ws :: "char \<Rightarrow> bool" where
  "is_ws c = (c \<in> set [CHR '' '', CHR 0x09, CHR 0x0A, CHR 0x0D])"

definition skip_ws :: "string \<Rightarrow> string" where
  "skip_ws s = dropWhile is_ws s"

definition is_digit :: "char \<Rightarrow> bool" where
  "is_digit c = (c \<in> set ''0123456789'')"

definition digit_val :: "char \<Rightarrow> nat" where
  "digit_val c = (case map_of (zip ''0123456789abcdefABCDEF''
                    [0, 1, 2, 3, 4, 5, 6, 7, 8, 9, 10, 11, 12, 13, 14, 15, 10, 11, 12, 13, 14, 15]) c of
                    None \<Rightarrow> 0 | Some n \<Rightarrow> n)"

definition is_hex :: "char \<Rightarrow> bool" where
  "is_hex c = (c \<in> set ''0123456789abcdefABCDEF'')"

definition read_digits :: "string \<Rightarrow> int" where
  "read_digits s = foldl (\<lambda>a c. 10 * a + int (digit_val c)) 0 s"

definition read_hex :: "string \<Rightarrow> nat" where
  "read_hex s = foldl (\<lambda>a c. 16 * a + digit_val c) 0 s"

definition unescape :: "char \<Rightarrow> char option" where
  "unescape c =
     map_of [(quote, quote), (backslash, backslash), (CHR ''/'', CHR ''/''),
             (CHR ''b'', CHR 0x08), (CHR ''f'', CHR 0x0C), (CHR ''n'', CHR 0x0A),
             (CHR ''r'', CHR 0x0D), (CHR ''t'', CHR 0x09)] c"

text \<open>The UTF-8 form of a code point.\<close>

definition utf8 :: "nat \<Rightarrow> string" where
  "utf8 cp =
     (if cp < 128 then [char_of cp]
      else if cp < 2048 then [char_of (192 + cp div 64), char_of (128 + cp mod 64)]
      else if cp < 65536 then
        [char_of (224 + cp div 4096), char_of (128 + cp div 64 mod 64), char_of (128 + cp mod 64)]
      else
        [char_of (240 + cp div 262144), char_of (128 + cp div 4096 mod 64),
         char_of (128 + cp div 64 mod 64), char_of (128 + cp mod 64)])"

text \<open>
  The text after \<^verbatim>\<open>\u\<close>: four hex digits, and when they are a high surrogate and
  \<^verbatim>\<open>\u\<close> follows, four more, which join it when they are a low surrogate. \<open>unicode_ok\<close>
  says that the digits are there, \<open>unicode_code\<close> is the code point and \<open>unicode_len\<close>
  the number of characters read.
\<close>

definition high_pair :: "string \<Rightarrow> bool" where
  "high_pair r =
     (55296 \<le> read_hex (take 4 r) \<and> read_hex (take 4 r) \<le> 56319
      \<and> starts_with (drop 4 r) [backslash, CHR ''u''])"

definition low_joined :: "string \<Rightarrow> bool" where
  "low_joined r =
     (high_pair r \<and> 56320 \<le> read_hex (take 4 (drop 6 r)) \<and> read_hex (take 4 (drop 6 r)) \<le> 57343)"

definition unicode_ok :: "string \<Rightarrow> bool" where
  "unicode_ok r =
     (4 \<le> length r \<and> list_all is_hex (take 4 r)
      \<and> (if high_pair r then 10 \<le> length r \<and> list_all is_hex (take 4 (drop 6 r)) else True))"

definition unicode_code :: "string \<Rightarrow> nat" where
  "unicode_code r =
     (if low_joined r
      then 65536 + (read_hex (take 4 r) - 55296) * 1024 + (read_hex (take 4 (drop 6 r)) - 56320)
      else read_hex (take 4 r))"

definition unicode_len :: "string \<Rightarrow> nat" where
  "unicode_len r = (if low_joined r then 10 else 4)"

text \<open>The text after the opening quote, up to the closing one.\<close>

fun scanstring :: "string \<Rightarrow> (string \<times> string) option" where
  "scanstring [] = None"
| "scanstring (c # cs) =
     (if c = quote then Some ([], cs)
      else if c = backslash then
        (case cs of
           [] \<Rightarrow> None
         | e # r \<Rightarrow>
             if e = CHR ''u'' then
               (if unicode_ok r
                then (case scanstring (drop (unicode_len r) r) of
                        None \<Rightarrow> None
                      | Some (s, rest) \<Rightarrow> Some (utf8 (unicode_code r) @ s, rest))
                else None)
             else (case unescape e of
                     None \<Rightarrow> None
                   | Some u \<Rightarrow> (case scanstring r of
                                 None \<Rightarrow> None
                               | Some (s, rest) \<Rightarrow> Some (u # s, rest))))
      else if (of_char c :: nat) < 32 then None
      else (case scanstring cs of
              None \<Rightarrow> None
            | Some (s, rest) \<Rightarrow> Some (c # s, rest)))"

text \<open>The three groups of the number pattern, and what follows the match.\<close>

definition scan_integer :: "string \<Rightarrow> (string \<times> string) option" where
  "scan_integer s =
     (let (sign, r) = (case s of [] \<Rightarrow> ([], []) | c # cs \<Rightarrow> if c = CHR ''-'' then ([c], cs) else ([], s))
      in case r of
           [] \<Rightarrow> None
         | d # ds \<Rightarrow>
             if d = CHR ''0'' then Some (sign @ [d], ds)
             else if is_digit d then Some (sign @ takeWhile is_digit r, dropWhile is_digit r)
             else None)"

definition scan_frac :: "string \<Rightarrow> string \<times> string" where
  "scan_frac s =
     (case s of
        c # d # ds \<Rightarrow>
          if c = CHR ''.'' \<and> is_digit d
          then (c # takeWhile is_digit (d # ds), dropWhile is_digit (d # ds))
          else ([], s)
      | _ \<Rightarrow> ([], s))"

definition scan_exp :: "string \<Rightarrow> string \<times> string" where
  "scan_exp s =
     (case s of
        [] \<Rightarrow> ([], s)
      | c # cs \<Rightarrow>
          if c = CHR ''e'' \<or> c = CHR ''E'' then
            (let (sign, r) = (case cs of [] \<Rightarrow> ([], [])
                              | g # gs \<Rightarrow> if g = CHR ''-'' \<or> g = CHR ''+'' then ([g], gs) else ([], cs))
             in case r of
                  [] \<Rightarrow> ([], s)
                | d # ds \<Rightarrow> if is_digit d
                            then (c # sign @ takeWhile is_digit r, dropWhile is_digit r)
                            else ([], s))
          else ([], s))"

definition read_int :: "string \<Rightarrow> int" where
  "read_int s = (case s of [] \<Rightarrow> 0
                 | c # cs \<Rightarrow> if c = CHR ''-'' then - read_digits cs else read_digits s)"

text \<open>
  A match of the number pattern: a float, an int, or the \<^verbatim>\<open>ValueError\<close> of \<^verbatim>\<open>int()\<close> on
  more digits than the limit.
\<close>

definition scan_number :: "string \<Rightarrow> (pyval \<times> string) result option" where
  "scan_number s =
     (case scan_integer s of
        None \<Rightarrow> None
      | Some (i, r) \<Rightarrow>
          (let (f, r') = scan_frac r; (e, r'') = scan_exp r'
           in if f \<noteq> [] \<or> e \<noteq> [] then Some (Inr (PFloat (i @ f @ e), r''))
              else if INT_MAX_STR_DIGITS < length (filter is_digit i) then Some (Inl ValueError)
              else Some (Inr (PInt (read_int i), r''))))"

text \<open>The words \<^verbatim>\<open>scan_once\<close> knows, in its order, after strings, objects and arrays.\<close>

definition scan_word :: "string \<Rightarrow> (pyval \<times> string) result" where
  "scan_word s =
     (if starts_with s ''null'' then Inr (PNone, drop 4 s)
      else if starts_with s ''true'' then Inr (PBool True, drop 4 s)
      else if starts_with s ''false'' then Inr (PBool False, drop 5 s)
      else (case scan_number s of
              Some r \<Rightarrow> r
            | None \<Rightarrow>
                if starts_with s ''NaN'' then Inr (PFloat ''NaN'', drop 3 s)
                else if starts_with s ''Infinity'' then Inr (PFloat ''Infinity'', drop 8 s)
                else if starts_with s ''-Infinity'' then Inr (PFloat ''-Infinity'', drop 9 s)
                else Inl JSONDecodeError))"

definition dict_of_pairs :: "(string \<times> pyval) list \<Rightarrow> (string \<times> pyval) list" where
  "dict_of_pairs ps = foldl (\<lambda>d kv. dict_set d (fst kv) (snd kv)) [] ps"

text \<open>
  \<open>scan_once fuel depth s\<close>: \<open>depth\<close> is the number of recursive calls left; entering an
  object or an array takes one.
\<close>

fun scan_once :: "nat \<Rightarrow> nat \<Rightarrow> string \<Rightarrow> (pyval \<times> string) result"
  and scan_array :: "nat \<Rightarrow> nat \<Rightarrow> string \<Rightarrow> (pyval list \<times> string) result"
  and scan_object :: "nat \<Rightarrow> nat \<Rightarrow> string \<Rightarrow> ((string \<times> pyval) list \<times> string) result" where
  "scan_once 0 depth s = Inl JSONDecodeError"
| "scan_once (Suc n) depth [] = Inl JSONDecodeError"
| "scan_once (Suc n) depth (c # cs) =
     (if c = quote then
        (case scanstring cs of None \<Rightarrow> Inl JSONDecodeError | Some (t, r) \<Rightarrow> Inr (PStr t, r))
      else if c = CHR ''{'' then
        (case depth of
           0 \<Rightarrow> Inl RecursionError
         | Suc depth' \<Rightarrow>
             (case skip_ws cs of
                [] \<Rightarrow> Inl JSONDecodeError
              | x # xs \<Rightarrow>
                  if x = CHR ''}'' then Inr (PDict [], xs)
                  else (case scan_object n depth' (x # xs) of
                          Inl e \<Rightarrow> Inl e
                        | Inr (ps, r) \<Rightarrow> Inr (PDict (dict_of_pairs ps), r))))
      else if c = CHR ''['' then
        (case depth of
           0 \<Rightarrow> Inl RecursionError
         | Suc depth' \<Rightarrow>
             (case skip_ws cs of
                [] \<Rightarrow> Inl JSONDecodeError
              | x # xs \<Rightarrow>
                  if x = CHR '']'' then Inr (PList [], xs)
                  else (case scan_array n depth' (x # xs) of
                          Inl e \<Rightarrow> Inl e
                        | Inr (vs, r) \<Rightarrow> Inr (PList vs, r))))
      else scan_word (c # cs))"
| "scan_array 0 depth s = Inl JSONDecodeError"
| "scan_array (Suc n) depth s =
     (case scan_once n depth s of
        Inl e \<Rightarrow> Inl e
      | Inr (v, r) \<Rightarrow>
          (case skip_ws r of
             [] \<Rightarrow> Inl JSONDecodeError
           | x # xs \<Rightarrow>
               if x = CHR '']'' then Inr ([v], xs)
               else if x = CHR '','' then
                 (case scan_array n depth (skip_ws xs) of
                    Inl e \<Rightarrow> Inl e
                  | Inr (vs, r') \<Rightarrow> Inr (v # vs, r'))
               else Inl JSONDecodeError))"
| "scan_object 0 depth s = Inl JSONDecodeError"
| "scan_object (Suc n) depth [] = Inl JSONDecodeError"
| "scan_object (Suc n) depth (q # cs) =
     (if q \<noteq> quote then Inl JSONDecodeError
      else case scanstring cs of
        None \<Rightarrow> Inl JSONDecodeError
      | Some (k, r) \<Rightarrow>
          (case skip_ws r of
             [] \<Rightarrow> Inl JSONDecodeError
           | x # xs \<Rightarrow>
               if x \<noteq> CHR '':'' then Inl JSONDecodeError
               else (case scan_once n depth (skip_ws xs) of
                  Inl e \<Rightarrow> Inl e
                | Inr (v, r') \<Rightarrow>
                    (case skip_ws r' of
                       [] \<Rightarrow> Inl JSONDecodeError
                     | y # ys \<Rightarrow>
                         if y = CHR ''}'' then Inr ([(k, v)], ys)
                         else if y = CHR '','' then
                           (case scan_object n depth (skip_ws ys) of
                              Inl e \<Rightarrow> Inl e
                            | Inr (ps, r'') \<Rightarrow> Inr ((k, v) # ps, r''))
                         else Inl JSONDecodeError))))"

definition json_loads :: "string \<Rightarrow> pyval result" where
  "json_loads s =
     (case scan_once (2 * length s + 2) RECURSION_LIMIT (skip_ws s) of
        Inl e \<Rightarrow> Inl e
      | Inr (v, r) \<Rightarrow> if skip_ws r = [] then Inr v else Inl JSONDecodeError)"

section \<open>Schedules\<close>

text \<open>
  Modelled from the spec: the schema \<^verbatim>\<open>SCH_SCHEDULE\<close> of \<^verbatim>\<open>evohomeasync2/schema\<close>, which is
  not among the sources. By sections 3 and 6 of the spec a remote schedule is a dict with
  the daily schedules, a sequence of dicts; each has a day name and its switchpoints, a
  sequence of dicts; each switchpoint has a time of day, a string in a fixed format, and
  either a heat setpoint, a float in a range of temperatures, or a hot-water state, one
  of an enumerated set. The field sets are closed. Here a time of day is any string of
  digits and colons, a heat setpoint any float written as digits, a point and digits,
  and the number of days is not fixed: the schema of the spec accepts no more.
\<close>

definition DAYS_OF_WEEK :: "string list" where
  "DAYS_OF_WEEK =
     [''Monday'', ''Tuesday'', ''Wednesday'', ''Thursday'', ''Friday'', ''Saturday'', ''Sunday'']"

definition keys_are :: "(string \<times> pyval) list \<Rightarrow> string list \<Rightarrow> bool" where
  "keys_are d ks =
     (distinct (map fst d) \<and> list_all (\<lambda>k. k \<in> set ks) (map fst d)
      \<and> list_all (\<lambda>k. k \<in> set (map fst d)) ks)"

definition is_time_of_day :: "string \<Rightarrow> bool" where
  "is_time_of_day s = (s \<noteq> [] \<and> list_all (\<lambda>c. c \<in> set ''0123456789:'') s)"

definition is_decimal :: "string \<Rightarrow> bool" where
  "is_decimal l =
     (case dropWhile is_digit l of
        [] \<Rightarrow> False
      | c # fs \<Rightarrow>
          c = CHR ''.'' \<and> fs \<noteq> [] \<and> list_all is_digit fs
          \<and> takeWhile is_digit l \<noteq> []
          \<and> (takeWhile is_digit l = ''0'' \<or> hd l \<noteq> CHR ''0''))"

definition SCH_SWITCHPOINT :: "pyval \<Rightarrow> bool" where
  "SCH_SWITCHPOINT v =
     (case v of
        PDict d \<Rightarrow>
          (case map_of d SZ_TIME_OF_DAY of
             Some (PStr t) \<Rightarrow>
               is_time_of_day t
               \<and> ((keys_are d [SZ_HEAT_SETPOINT, SZ_TIME_OF_DAY]
                    \<and> (case map_of d SZ_HEAT_SETPOINT of
                          Some (PFloat l) \<Rightarrow> is_decimal l | _ \<Rightarrow> False))
                  \<or> (keys_are d [SZ_DHW_STATE, SZ_TIME_OF_DAY]
                    \<and> (case map_of d SZ_DHW_STATE of
                          Some (PStr s) \<Rightarrow> s \<in> set [''On'', ''Off''] | _ \<Rightarrow> False)))
           | _ \<Rightarrow> False)
      | _ \<Rightarrow> False)"

definition SCH_DAY_OF_WEEK :: "pyval \<Rightarrow> bool" where
  "SCH_DAY_OF_WEEK v =
     (case v of
        PDict d \<Rightarrow>
          keys_are d [SZ_DAY_OF_WEEK, SZ_SWITCHPOINTS]
          \<and> (case map_of d SZ_DAY_OF_WEEK of
                Some (PStr n) \<Rightarrow> n \<in> set DAYS_OF_WEEK | _ \<Rightarrow> False)
          \<and> (case map_of d SZ_SWITCHPOINTS of
                Some (PList sps) \<Rightarrow> list_all SCH_SWITCHPOINT sps | _ \<Rightarrow> False)
      | _ \<Rightarrow> False)"

definition SCH_SCHEDULE :: "pyval \<Rightarrow> bool" where
  "SCH_SCHEDULE v =
     (case v of
        PDict d \<Rightarrow>
          keys_are d [SZ_DAILY_SCHEDULES]
          \<and> (case map_of d SZ_DAILY_SCHEDULES of
                Some (PList days) \<Rightarrow> list_all SCH_DAY_OF_WEEK days | _ \<Rightarrow> False)
      | _ \<Rightarrow> False)"

text \<open>
  \<^verbatim>\<open>_ZoneBase.get_schedule\<close>. The text of the schedule is rewritten once for each of
  \<^verbatim>\<open>CAPITALIZED_KEYS\<close>, in order, and parsed again; then
  \<^verbatim>\<open>result[SZ_DAILY_SCHEDULES.capitalize()]\<close> is enumerated and every entry gets its
  position under \<^verbatim>\<open>SZ_DAY_OF_WEEK.capitalize()\<close>. A result that is not a dict, a missing
  key and an entry that takes no item assignment raise.
\<close>

definition CAPITALIZED_KEYS :: "string list" where
  "CAPITALIZED_KEYS =
     [SZ_DAILY_SCHEDULES, SZ_DAY_OF_WEEK, SZ_DHW_STATE, SZ_SWITCHPOINTS, SZ_TEMPERATURE,
      SZ_TIME_OF_DAY]"

definition capitalize_keys :: "string \<Rightarrow> string" where
  "capitalize_keys response_text =
     foldl (\<lambda>text key_name. str_replace text key_name (capitalize key_name))
       response_text CAPITALIZED_KEYS"

fun set_day_of_week :: "nat \<Rightarrow> pyval list \<Rightarrow> pyval list result" where
  "set_day_of_week day_of_week [] = Inr []"
| "set_day_of_week day_of_week (setpoints # rest) =
     (case setpoints of
        PDict d \<Rightarrow>
          (case set_day_of_week (Suc day_of_week) rest of
             Inl e \<Rightarrow> Inl e
           | Inr rest' \<Rightarrow>
               Inr (PDict (dict_set d (capitalize SZ_DAY_OF_WEEK) (PInt (int day_of_week)))
                    # rest'))
      | _ \<Rightarrow> Inl TypeError)"

definition enumerate_days :: "(string \<times> pyval) list \<Rightarrow> pyval result" where
  "enumerate_days result =
     (case dict_item result (capitalize SZ_DAILY_SCHEDULES) of
        Inl e \<Rightarrow> Inl e
      | Inr days \<Rightarrow>
          (case days of
             PList xs \<Rightarrow>
               (case set_day_of_week 0 xs of
                  Inl e \<Rightarrow> Inl e
                | Inr xs' \<Rightarrow>
                    Inr (PDict (dict_set result (capitalize SZ_DAILY_SCHEDULES) (PList xs'))))
           | PDict kvs \<Rightarrow> if kvs = [] then Inr (PDict result) else Inl TypeError
           | PStr s \<Rightarrow> if s = [] then Inr (PDict result) else Inl TypeError
           | _ \<Rightarrow> Inl TypeError))"

definition decode_schedule :: "pyval \<Rightarrow> pyval result" where
  "decode_schedule schedule =
     (case json_dumps schedule of
        Inl e \<Rightarrow> Inl e
      | Inr response_text \<Rightarrow>
          (case json_loads (capitalize_keys response_text) of
             Inl e \<Rightarrow> Inl e
           | Inr result \<Rightarrow>
               (case result of
                  PDict d \<Rightarrow> enumerate_days d
                | _ \<Rightarrow> Inl TypeError)))"

definition schedule_path :: "entity \<Rightarrow> string" where
  "schedule_path z = z_type z @ ''/'' @ py_str (z_id z) @ ''/schedule''"

definition get_schedule :: "entity \<Rightarrow> broker \<Rightarrow> pyval result \<times> broker" where
  "get_schedule z b =
     (case broker_get (schedule_path z) (Some SCH_SCHEDULE) b of
        (Inl e, b') \<Rightarrow> (Inl e, b')
      | (Inr schedule, b') \<Rightarrow> (decode_schedule schedule, b'))"

text \<open>
  \<^verbatim>\<open>_ZoneBase.set_schedule\<close>. A dict is checked by \<^verbatim>\<open>json.dumps\<close>, whose
  \<^verbatim>\<open>OverflowError\<close>, \<^verbatim>\<open>TypeError\<close> and \<^verbatim>\<open>ValueError\<close> become \<^verbatim>\<open>InvalidSchedule\<close>; a
  string is parsed by \<^verbatim>\<open>json.loads\<close>, whose \<^verbatim>\<open>JSONDecodeError\<close> becomes
  \<^verbatim>\<open>InvalidSchedule\<close>; any other type is \<^verbatim>\<open>InvalidSchedule\<close>. The text of the wrapped
  exception, which follows \<^verbatim>\<open>Invalid schedule: \<close> in the message, is left out.
\<close>

fun type_name :: "pyval \<Rightarrow> string" where
  "type_name PNone = ''NoneType''"
| "type_name (PBool b) = ''bool''"
| "type_name (PInt i) = ''int''"
| "type_name (PFloat l) = ''float''"
| "type_name (PStr s) = ''str''"
| "type_name (PList xs) = ''list''"
| "type_name (PDict d) = ''dict''"
| "type_name (POther t) = t"

definition put_schedule :: "entity \<Rightarrow> pyval \<Rightarrow> broker \<Rightarrow> unit result \<times> broker" where
  "put_schedule z body b =
     (case broker_put (schedule_path z) body (Some SCH_SCHEDULE) b of
        (Inl e, b') \<Rightarrow> (Inl e, b')
      | (Inr _, b') \<Rightarrow> (Inr (), b'))"

definition set_schedule :: "entity \<Rightarrow> pyval \<Rightarrow> broker \<Rightarrow> unit result \<times> broker" where
  "set_schedule z schedule b =
     (case schedule of
        PDict d \<Rightarrow>
          (case json_dumps schedule of
             Inl e \<Rightarrow>
               if e \<in> set [OverflowError, TypeError, ValueError]
               then (Inl (InvalidSchedule ''Invalid schedule: ''), b) else (Inl e, b)
           | Inr text \<Rightarrow> put_schedule z schedule b)
      | PStr s \<Rightarrow>
          (case json_loads s of
             Inl e \<Rightarrow>
               if e = JSONDecodeError
               then (Inl (InvalidSchedule ''Invalid schedule: ''), b) else (Inl e, b)
           | Inr parsed \<Rightarrow> put_schedule z parsed b)
      | _ \<Rightarrow>
          (Inl (InvalidSchedule (''Invalid schedule type: <class '' @ [CHR 0x27]
                  @ type_name schedule @ [CHR 0x27] @ ''>'')), b))"

section \<open>Uploading a schedule\<close>

lemma put_schedule_calls:
  "calls (snd (put_schedule z body b)) = calls b @ [PUT (schedule_path z) body]"
  by (simp add: put_schedule_def broker_put_def split: sum.splits prod.splits)

lemma skip_ws_bracket: "skip_ws (CHR ''['' # cs) = CHR ''['' # cs"
  by (simp add: skip_ws_def is_ws_def)

lemma scan_once_deep:
  "2 * depth \<le> n \<Longrightarrow>
     scan_once (Suc n) depth (replicate (Suc depth) (CHR ''['') @ r) = Inl RecursionError"
proof (induction depth arbitrary: n)
  case 0
  show ?case by (simp add: quote_def)
next
  case (Suc depth)
  define m where "m = n - 2"
  from Suc.prems have n: "n = Suc (Suc m)" and m: "2 * depth \<le> m"
    by (simp_all add: m_def)
  have "scan_once (Suc m) depth (replicate (Suc depth) (CHR ''['') @ r) = Inl RecursionError"
    by (rule Suc.IH [OF m])
  then show ?case
    by (simp add: n quote_def skip_ws_bracket)
qed

lemma json_loads_deep:
  "RECURSION_LIMIT < k \<Longrightarrow> json_loads (replicate k (CHR ''['')) = Inl RecursionError"
proof -
  assume k: "RECURSION_LIMIT < k"
  define j where "j = k - Suc RECURSION_LIMIT"
  have split: "replicate k (CHR ''['') = replicate (Suc RECURSION_LIMIT) (CHR ''['') @ replicate j (CHR ''['')"
    using k by (simp add: j_def replicate_add [symmetric] del: replicate_Suc)
  have ws: "skip_ws (replicate k (CHR ''['')) = replicate k (CHR ''['')"
    using k by (cases k) (simp_all add: skip_ws_bracket)
  have fuel: "2 * RECURSION_LIMIT \<le> 2 * k + 1"
    using k by simp
  have "scan_once (Suc (2 * k + 1)) RECURSION_LIMIT
          (replicate (Suc RECURSION_LIMIT) (CHR ''['') @ replicate j (CHR ''['')) = Inl RecursionError"
    by (rule scan_once_deep [OF fuel])
  then show ?thesis
    by (simp add: json_loads_def ws split [symmetric] del: replicate_Suc)
qed

text \<open>\<open>nested k\<close> is \<^verbatim>\<open>{}\<close> inside \<open>k\<close> dicts \<^verbatim>\<open>{"a": ...}\<close>.\<close>

fun nested :: "nat \<Rightarrow> pyval" where
  "nested 0 = PDict []"
| "nested (Suc k) = PDict [(''a'', nested k)]"

lemma encode_error_nested: "depth \<le> k \<Longrightarrow> encode_error depth (nested k) = Some RecursionError"
proof (induction depth arbitrary: k)
  case 0
  show ?case by (cases k) simp_all
next
  case (Suc depth)
  then obtain j where k: "k = Suc j" and j: "depth \<le> j"
    by (cases k) auto
  show ?case using Suc.IH [OF j] by (simp add: k)
qed

lemma json_dumps_nested:
  "RECURSION_LIMIT \<le> k \<Longrightarrow> json_dumps (nested k) = Inl RecursionError"
  by (simp add: json_dumps_def encode_error_nested)

lemma json_dumps_deep:
  "json_dumps (PDict [(''a'', nested 100000)]) = Inl RecursionError"
  using json_dumps_nested [of "Suc 100000"] by (simp add: RECURSION_LIMIT_def del: Suc_numeral)

lemma json_loads_brackets: "json_loads (replicate 2000 (CHR ''['')) = Inl RecursionError"
  by (rule json_loads_deep) (simp add: RECURSION_LIMIT_def)

lemma starts_with_digit:
  "is_digit c \<Longrightarrow> \<not> starts_with (c # cs) ''null'' \<and> \<not> starts_with (c # cs) ''true''
     \<and> \<not> starts_with (c # cs) ''false''"
  by (auto simp: is_digit_def)

lemma json_loads_digits:
  assumes "INT_MAX_STR_DIGITS < k"
  shows "json_loads (replicate k (CHR ''1'')) = Inl ValueError"
proof -
  obtain j where k: "k = Suc j" using assms by (cases k) auto
  let ?s = "replicate k (CHR ''1'')"
  have d: "is_digit (CHR ''1'')" by (simp add: is_digit_def)
  have dig: "takeWhile is_digit ?s = ?s" "dropWhile is_digit ?s = []" "filter is_digit ?s = ?s"
    using d by simp_all
  have "scan_integer ?s = Some (?s, [])"
    using dig d by (simp add: scan_integer_def k)
  then have "scan_number ?s = Some (Inl ValueError)"
    using assms dig(3) by (simp add: scan_number_def scan_frac_def scan_exp_def)
  then have "scan_word ?s = Inl ValueError"
    using starts_with_digit [OF d, of "replicate j (CHR ''1'')"] by (simp add: scan_word_def k)
  then have "scan_once (Suc (2 * k + 1)) RECURSION_LIMIT ?s = Inl ValueError"
    by (simp add: k quote_def)
  moreover have "skip_ws ?s = ?s"
    by (simp add: k skip_ws_def is_ws_def)
  ultimately show ?thesis by (simp add: json_loads_def)
qed

lemma json_loads_ones: "json_loads (replicate 4301 (CHR ''1'')) = Inl ValueError"
  by (rule json_loads_digits) (simp add: INT_MAX_STR_DIGITS_def)

lemma json_loads_unclosed: "json_loads ''[1, 2'' = Inl JSONDecodeError"
  by code_simp

lemma json_dumps_datetime: "json_dumps (PDict [(''until'', POther ''datetime'')]) = Inl TypeError"
  by code_simp

text \<open>
  Claim C4, as stated, at the text of two thousand \<^verbatim>\<open>[\<close>, which is not JSON: \<^verbatim>\<open>json.loads\<close>
  gives up with \<^verbatim>\<open>RecursionError\<close>, which is no \<^verbatim>\<open>JSONDecodeError\<close>, so \<^verbatim>\<open>set_schedule\<close>
  raises \<^verbatim>\<open>RecursionError\<close> and not \<^verbatim>\<open>InvalidSchedule\<close>. The broker is left untouched.
\<close>

theorem set_schedule_deep_text_counterexample:
  "json_loads (replicate 2000 (CHR ''['')) = Inl RecursionError
   \<and> set_schedule example_zone (PStr (replicate 2000 (CHR ''[''))) example_broker
       = (Inl RecursionError, example_broker)
   \<and> (\<forall>m. fst (set_schedule example_zone (PStr (replicate 2000 (CHR ''[''))) example_broker)
         \<noteq> Inl (InvalidSchedule m))"
  by (simp add: set_schedule_def json_loads_brackets)

text \<open>
  Claim C4, amended. \<^verbatim>\<open>set_schedule\<close> fails and leaves the broker, and so its log of
  invocations, untouched whenever \<^verbatim>\<open>json.loads\<close> of its string argument raises,
  \<^verbatim>\<open>json.dumps\<close> of its dict argument raises, or the argument is neither a dict nor a
  string. The failure is \<^verbatim>\<open>InvalidSchedule\<close> when \<^verbatim>\<open>json.loads\<close> raises \<^verbatim>\<open>JSONDecodeError\<close>,
  when \<^verbatim>\<open>json.dumps\<close> raises \<^verbatim>\<open>OverflowError\<close>, \<^verbatim>\<open>TypeError\<close> or \<^verbatim>\<open>ValueError\<close>, and for an
  argument of another type; any other exception of \<^verbatim>\<open>json.loads\<close> or \<^verbatim>\<open>json.dumps\<close>, such as
  the \<^verbatim>\<open>RecursionError\<close> of a text or a dict nested too deep and the \<^verbatim>\<open>ValueError\<close> of
  \<^verbatim>\<open>json.loads\<close> on an int of too many digits, is raised as it is.
\<close>

theorem set_schedule_invalid:
  "(json_loads s1 = Inl JSONDecodeError \<longrightarrow>
      (\<exists>m. set_schedule z (PStr s1) b = (Inl (InvalidSchedule m), b)))
   \<and> (json_loads s2 = Inl e2 \<and> e2 \<noteq> JSONDecodeError \<longrightarrow>
      set_schedule z (PStr s2) b = (Inl e2, b))
   \<and> (json_dumps (PDict d1) = Inl e1 \<and> e1 \<in> {OverflowError, TypeError, ValueError} \<longrightarrow>
      (\<exists>m. set_schedule z (PDict d1) b = (Inl (InvalidSchedule m), b)))
   \<and> (json_dumps (PDict d2) = Inl e3 \<and> e3 \<notin> {OverflowError, TypeError, ValueError} \<longrightarrow>
      set_schedule z (PDict d2) b = (Inl e3, b))
   \<and> ((\<forall>d'. v \<noteq> PDict d') \<and> (\<forall>s'. v \<noteq> PStr s') \<longrightarrow>
      (\<exists>m. set_schedule z v b = (Inl (InvalidSchedule m), b)))"
proof (intro conjI impI)
  assume "json_loads s1 = Inl JSONDecodeError"
  then show "\<exists>m. set_schedule z (PStr s1) b = (Inl (InvalidSchedule m), b)"
    by (simp add: set_schedule_def)
next
  assume "json_loads s2 = Inl e2 \<and> e2 \<noteq> JSONDecodeError"
  then show "set_schedule z (PStr s2) b = (Inl e2, b)"
    by (simp add: set_schedule_def)
next
  assume "json_dumps (PDict d1) = Inl e1 \<and> e1 \<in> {OverflowError, TypeError, ValueError}"
  then show "\<exists>m. set_schedule z (PDict d1) b = (Inl (InvalidSchedule m), b)"
    by (auto simp: set_schedule_def)
next
  assume "json_dumps (PDict d2) = Inl e3 \<and> e3 \<notin> {OverflowError, TypeError, ValueError}"
  then show "set_schedule z (PDict d2) b = (Inl e3, b)"
    by (auto simp: set_schedule_def)
next
  assume "(\<forall>d'. v \<noteq> PDict d') \<and> (\<forall>s'. v \<noteq> PStr s')"
  then show "\<exists>m. set_schedule z v b = (Inl (InvalidSchedule m), b)"
    by (cases v) (simp_all add: set_schedule_def)
qed

theorem set_schedule_invalid_witness:
  "(\<exists>m. set_schedule example_zone (PStr ''[1, 2'') example_broker
           = (Inl (InvalidSchedule m), example_broker))
   \<and> set_schedule example_zone (PStr (replicate 4301 (CHR ''1''))) example_broker
       = (Inl ValueError, example_broker)
   \<and> (\<exists>m. set_schedule example_zone (PDict [(''until'', POther ''datetime'')]) example_broker
           = (Inl (InvalidSchedule m), example_broker))
   \<and> set_schedule example_zone (PDict [(''a'', nested 100000)]) example_broker
       = (Inl RecursionError, example_broker)
   \<and> (\<exists>m. set_schedule example_zone (PList []) example_broker
           = (Inl (InvalidSchedule m), example_broker))"
  using set_schedule_invalid [of "''[1, 2''" example_zone example_broker
      "replicate 4301 (CHR ''1'')" ValueError
      "[(''until'', POther ''datetime'')]" TypeError
      "[(''a'', nested 100000)]" RecursionError "PList []"]
    json_loads_unclosed json_loads_ones json_dumps_datetime json_dumps_deep
  by simp

text \<open>
  Claim C8. When the argument of \<^verbatim>\<open>set_schedule\<close> is a dict that \<^verbatim>\<open>json.dumps\<close> accepts,
  the one broker invocation is a PUT on \<^verbatim>\<open>{type}/{id}/schedule\<close> whose body is that dict
  itself; when it is a string that \<^verbatim>\<open>json.loads\<close> accepts, the body is the parsed value
  itself. No key is renamed on the way.
\<close>

theorem set_schedule_body_unchanged:
  "(json_dumps (PDict d) = Inr t \<longrightarrow>
      calls (snd (set_schedule z (PDict d) b)) =
        calls b @ [PUT (z_type z @ ''/'' @ py_str (z_id z) @ ''/schedule'') (PDict d)])
   \<and> (json_loads s = Inr v \<longrightarrow>
      calls (snd (set_schedule z' (PStr s) b')) =
        calls b' @ [PUT (z_type z' @ ''/'' @ py_str (z_id z') @ ''/schedule'') v])"
  by (simp add: set_schedule_def put_schedule_calls schedule_path_def)

definition example_text :: string where
  "example_text =
     ''{'' @ [quote] @ ''Dailyschedules'' @ [quote] @ '': [{'' @ [quote] @ ''Dayofweek''
       @ [quote] @ '': 0, '' @ [quote] @ ''Switchpoints'' @ [quote] @ '': []}]}''"

definition example_internal :: pyval where
  "example_internal =
     PDict [(''Dailyschedules'',
             PList [PDict [(''Dayofweek'', PInt 0), (''Switchpoints'', PList [])]])]"

lemma json_loads_example_text: "json_loads example_text = Inr example_internal"
  by code_simp

lemma json_dumps_example_internal: "json_dumps example_internal = Inr example_text"
  by code_simp

theorem set_schedule_body_unchanged_witness:
  "calls (snd (set_schedule example_zone example_internal example_broker)) =
     [PUT ''temperatureZone/3432521/schedule'' example_internal]
   \<and> calls (snd (set_schedule example_dhw (PStr example_text) example_broker)) =
     [PUT ''domesticHotWater/3933910/schedule'' example_internal]"
  using set_schedule_body_unchanged [of "[(''Dailyschedules'',
             PList [PDict [(''Dayofweek'', PInt 0), (''Switchpoints'', PList [])]])]"
      example_text example_zone example_broker example_text example_internal
      example_dhw example_broker]
    json_loads_example_text json_dumps_example_internal
  by (simp add: example_internal_def example_zone_def example_dhw_def example_broker_def
      py_str_def)

section \<open>Replacement and separators\<close>

text \<open>
  A character that does not occur in \<open>old\<close> cuts the text in two parts that
  \<^verbatim>\<open>str.replace\<close> rewrites independently: no occurrence of \<open>old\<close> can lie across it.
\<close>

lemma starts_with_append: "starts_with a p \<Longrightarrow> starts_with (a @ b) p"
  by (induction a p rule: starts_with.induct) auto

lemma starts_with_length: "starts_with a p \<Longrightarrow> length p \<le> length a"
  by (induction a p rule: starts_with.induct) auto

lemma starts_with_sep: "c \<notin> set p \<Longrightarrow> starts_with (a @ c # b) p \<Longrightarrow> starts_with a p"
proof (induction a p rule: starts_with.induct)
  case (1 s)
  then show ?case by simp
next
  case (2 p ps)
  then show ?case by auto
next
  case (3 c' cs p ps)
  then show ?case by auto
qed

lemma replace_scan_sep:
  assumes "p \<noteq> []" and "c \<notin> set p"
  shows "replace_scan p r (a @ c # b) = replace_scan p r a @ c # replace_scan p r b"
  using assms
proof (induction p r a rule: replace_scan.induct)
  case (1 old new)
  then have "\<not> starts_with (c # b) old"
    by (cases old) auto
  then show ?case by simp
next
  case (2 old new x xs)
  show ?case
  proof (cases "starts_with (x # xs) old")
    case True
    then have le: "length old - 1 \<le> length xs"
      using starts_with_length [of "x # xs" old] by simp
    from True have "starts_with (x # xs @ c # b) old"
      using starts_with_append [of "x # xs" old "c # b"] by simp
    with True le 2 show ?thesis by simp
  next
    case False
    then have "\<not> starts_with (x # xs @ c # b) old"
      using starts_with_sep [of c old "x # xs" b] 2(4) by auto
    with False 2 show ?thesis by simp
  qed
qed

lemma replace_scan_seps:
  assumes "p \<noteq> []" and "\<forall>x \<in> set l. x \<notin> set p"
  shows "replace_scan p r (l @ b) = l @ replace_scan p r b"
  using assms(2)
proof (induction l)
  case Nil
  then show ?case by simp
next
  case (Cons x l)
  then have "replace_scan p r ([] @ x # (l @ b)) = replace_scan p r [] @ x # replace_scan p r (l @ b)"
    using replace_scan_sep [OF assms(1), of x r "[]" "l @ b"] by simp
  with Cons show ?case by simp
qed

lemma replace_scan_set: "set (replace_scan p r s) \<subseteq> set s \<union> set r"
proof (induction p r s rule: replace_scan.induct)
  case (1 old new)
  then show ?case by simp
next
  case (2 old new c cs)
  have "set (drop (length old - 1) cs) \<subseteq> set cs"
    by (rule set_drop_subset)
  with 2 show ?case by auto
qed

section \<open>Rewriting the text of a value\<close>

text \<open>
  \<open>map_strs f\<close> applies \<open>f\<close> to every key and every string of a value. For the values
  whose strings need no escape and whose numbers are decimal floats, rewriting the text
  of the value is rewriting its strings.
\<close>

fun map_strs :: "(string \<Rightarrow> string) \<Rightarrow> pyval \<Rightarrow> pyval" where
  "map_strs f (PStr s) = PStr (f s)"
| "map_strs f (PList xs) = PList (map (map_strs f) xs)"
| "map_strs f (PDict d) = PDict (map (\<lambda>kv. (f (fst kv), map_strs f (snd kv))) d)"
| "map_strs f v = v"

definition plain_char :: "char \<Rightarrow> bool" where
  "plain_char c = (c \<noteq> quote \<and> c \<noteq> backslash \<and> 32 \<le> (of_char c :: nat) \<and> (of_char c :: nat) \<le> 126)"

definition plain_str :: "string \<Rightarrow> bool" where
  "plain_str s = list_all plain_char s"

fun plain_json :: "pyval \<Rightarrow> bool" where
  "plain_json (PStr s) = plain_str s"
| "plain_json (PFloat l) = is_decimal l"
| "plain_json (PList xs) = list_all plain_json xs"
| "plain_json (PDict d) = list_all (\<lambda>kv. plain_str (fst kv) \<and> plain_json (snd kv)) d"
| "plain_json v = False"

definition pat_ok :: "string \<Rightarrow> bool" where
  "pat_ok p = (p \<noteq> [] \<and> list_all (\<lambda>c. c \<notin> set (quote # ''[]{},: .0123456789'')) p)"

lemma escape_plain: "plain_char c \<Longrightarrow> escape_str (c # cs) = c # escape_str cs"
  by (auto simp: plain_char_def escape_ascii_def quote_def backslash_def)

lemma encode_plain: "plain_str s \<Longrightarrow> encode_string s = quote # s @ [quote]"
proof -
  assume "plain_str s"
  then have "escape_str s = s"
    by (induction s) (simp_all add: plain_str_def escape_plain del: escape_str.simps(2))
  then show ?thesis by (simp add: encode_string_def)
qed

lemma plain_str_replace:
  "plain_str s \<Longrightarrow> plain_str r \<Longrightarrow> plain_str (replace_scan p r s)"
  using replace_scan_set [of p r s] by (auto simp: plain_str_def list_all_iff)

lemma is_digit_char: "is_digit y \<Longrightarrow> y \<in> set ''.0123456789''"
  by (simp add: is_digit_def)

lemma decimal_shape:
  assumes "is_decimal l"
  obtains fs where "l = takeWhile is_digit l @ CHR ''.'' # fs" and "list_all is_digit fs"
    and "fs \<noteq> []" and "takeWhile is_digit l \<noteq> []"
    and "takeWhile is_digit l = ''0'' \<or> hd l \<noteq> CHR ''0''"
proof (cases "dropWhile is_digit l")
  case Nil
  with assms show ?thesis by (simp add: is_decimal_def)
next
  case (Cons c fs)
  with assms have c: "c = CHR ''.''" and fs: "list_all is_digit fs" "fs \<noteq> []"
    and tw: "takeWhile is_digit l \<noteq> []" "takeWhile is_digit l = ''0'' \<or> hd l \<noteq> CHR ''0''"
    by (simp_all add: is_decimal_def)
  have "l = takeWhile is_digit l @ CHR ''.'' # fs"
    using Cons c takeWhile_dropWhile_id [of is_digit l] by simp
  with fs tw that show ?thesis by blast
qed

lemma decimal_chars:
  assumes "is_decimal l" and "x \<in> set l"
  shows "x \<in> set ''.0123456789''"
proof -
  obtain fs where l: "l = takeWhile is_digit l @ CHR ''.'' # fs" and fs: "list_all is_digit fs"
    using decimal_shape [OF assms(1)] by blast
  from assms(2) l have "x \<in> set (takeWhile is_digit l) \<or> x = CHR ''.'' \<or> x \<in> set fs"
    by (metis Un_iff set_ConsD set_append)
  then show ?thesis
  proof (elim disjE)
    assume "x \<in> set (takeWhile is_digit l)"
    then have "is_digit x" by (rule set_takeWhileD [THEN conjunct2])
    then show ?thesis by (rule is_digit_char)
  next
    assume "x = CHR ''.''"
    then show ?thesis by simp
  next
    assume "x \<in> set fs"
    with fs have "is_digit x" by (simp add: list_all_iff)
    then show ?thesis by (rule is_digit_char)
  qed
qed

lemma pat_ok_seps:
  assumes "pat_ok p"
  shows "p \<noteq> []" and "quote \<notin> set p" and "CHR ''['' \<notin> set p" and "CHR '']'' \<notin> set p"
    and "CHR ''{'' \<notin> set p" and "CHR ''}'' \<notin> set p" and "CHR '','' \<notin> set p"
    and "CHR '':'' \<notin> set p" and "CHR '' '' \<notin> set p"
  using assms by (auto simp: pat_ok_def list_all_iff)

lemma pat_ok_decimal: "pat_ok p \<Longrightarrow> is_decimal l \<Longrightarrow> \<forall>x \<in> set l. x \<notin> set p"
  using decimal_chars [of l] by (auto simp: pat_ok_def list_all_iff)

lemma replace_scan_lead:
  "p \<noteq> [] \<Longrightarrow> c \<notin> set p \<Longrightarrow> replace_scan p r (c # b) = c # replace_scan p r b"
  using replace_scan_sep [of p c r "[]" b] by simp

lemma replace_string_text:
  assumes "pat_ok p" and "plain_str s" and "plain_str r"
  shows "replace_scan p r (encode_string s @ b) = encode_string (replace_scan p r s) @ replace_scan p r b"
proof -
  have q: "quote \<notin> set p" and ne: "p \<noteq> []"
    using pat_ok_seps [OF assms(1)] by auto
  have "replace_scan p r (quote # s @ quote # b) = quote # replace_scan p r s @ quote # replace_scan p r b"
    using replace_scan_lead [OF ne q] replace_scan_sep [OF ne q] by simp
  then show ?thesis
    using encode_plain [OF assms(2)] encode_plain [OF plain_str_replace [OF assms(2,3)]]
    by simp
qed

lemma replace_intersperse:
  assumes "p \<noteq> []" and "CHR '','' \<notin> set p" and "CHR '' '' \<notin> set p"
    and "\<And>x c b. x \<in> set ts \<Longrightarrow> c \<notin> set p \<Longrightarrow>
           replace_scan p r (f x @ c # b) = g x @ c # replace_scan p r b"
    and "c \<notin> set p"
  shows "replace_scan p r (intersperse '', '' (map f ts) @ c # b) =
           intersperse '', '' (map g ts) @ c # replace_scan p r b"
  using assms(4)
proof (induction ts)
  case Nil
  show ?case using replace_scan_lead [OF assms(1) assms(5)] by simp
next
  case (Cons x ts)
  show ?case
  proof (cases ts)
    case Nil
    then show ?thesis using Cons.prems [of x c b] assms(5) by simp
  next
    case (Cons y ys)
    have ih: "replace_scan p r (intersperse '', '' (map f ts) @ c # b) =
                intersperse '', '' (map g ts) @ c # replace_scan p r b"
      using Cons.IH Cons.prems by simp
    have "replace_scan p r (f x @ CHR '','' # CHR '' '' # intersperse '', '' (map f ts) @ c # b)
            = g x @ CHR '','' # replace_scan p r (CHR '' '' # intersperse '', '' (map f ts) @ c # b)"
      using Cons.prems [of x "CHR '',''"] assms(2) by simp
    also have "\<dots> = g x @ CHR '','' # CHR '' '' # replace_scan p r (intersperse '', '' (map f ts) @ c # b)"
      using replace_scan_lead [OF assms(1) assms(3)] by simp
    finally show ?thesis using ih Cons by simp
  qed
qed

lemma plain_json_map_strs:
  assumes "plain_str r"
  shows "plain_json v \<Longrightarrow> plain_json (map_strs (replace_scan p r) v)"
proof (induction v)
  case (PStr s)
  then show ?case using plain_str_replace [OF _ assms] by simp
next
  case (PList xs)
  then show ?case by (auto simp: list_all_iff)
next
  case (PDict d)
  then show ?case
    using plain_str_replace [OF _ assms] by (fastforce simp: list_all_iff)
qed simp_all

lemma replace_dumps_text:
  assumes "pat_ok p" and "plain_str r"
  shows "plain_json v \<Longrightarrow> c \<notin> set p \<Longrightarrow>
           replace_scan p r (dumps_text v @ c # b) =
             dumps_text (map_strs (replace_scan p r) v) @ c # replace_scan p r b"
proof (induction v arbitrary: c b)
  case (PStr s)
  then show ?case
    using replace_string_text [OF assms(1) _ assms(2), of s "c # b"]
      replace_scan_lead [OF pat_ok_seps(1) [OF assms(1)], of c r b]
    by simp
next
  case (PFloat l)
  then show ?case
    using replace_scan_seps [OF pat_ok_seps(1) [OF assms(1)] pat_ok_decimal [OF assms(1)], of l r "c # b"]
      replace_scan_lead [OF pat_ok_seps(1) [OF assms(1)], of c r b]
    by simp
next
  case (PList xs)
  have ne: "p \<noteq> []" by (rule pat_ok_seps(1) [OF assms(1)])
  have each: "\<And>x c b. x \<in> set xs \<Longrightarrow> c \<notin> set p \<Longrightarrow>
      replace_scan p r (dumps_text x @ c # b) =
        dumps_text (map_strs (replace_scan p r) x) @ c # replace_scan p r b"
    using PList by (simp add: list_all_iff)
  have "replace_scan p r (intersperse '', '' (map dumps_text xs) @ CHR '']'' # c # b) =
          intersperse '', '' (map (\<lambda>x. dumps_text (map_strs (replace_scan p r) x)) xs)
            @ CHR '']'' # replace_scan p r (c # b)"
    by (rule replace_intersperse [OF ne pat_ok_seps(7) [OF assms(1)] pat_ok_seps(9) [OF assms(1)]
          each pat_ok_seps(4) [OF assms(1)]])
  then show ?case
    using replace_scan_lead [OF ne pat_ok_seps(3) [OF assms(1)]]
      replace_scan_lead [OF ne PList.prems(2)]
    by (simp add: comp_def)
next
  case (PDict d)
  have ne: "p \<noteq> []" by (rule pat_ok_seps(1) [OF assms(1)])
  let ?f = "\<lambda>kv. encode_string (fst kv) @ '': '' @ dumps_text (snd kv)"
  let ?g = "\<lambda>kv. encode_string (replace_scan p r (fst kv)) @ '': ''
                 @ dumps_text (map_strs (replace_scan p r) (snd kv))"
  have each: "\<And>kv c b. kv \<in> set d \<Longrightarrow> c \<notin> set p \<Longrightarrow>
      replace_scan p r (?f kv @ c # b) = ?g kv @ c # replace_scan p r b"
  proof -
    fix kv c b
    assume kv: "kv \<in> set d" and c: "c \<notin> set p"
    from kv PDict.prems(1) have pk: "plain_str (fst kv)" and pv: "plain_json (snd kv)"
      by (auto simp: list_all_iff)
    have v: "replace_scan p r (dumps_text (snd kv) @ c # b) =
               dumps_text (map_strs (replace_scan p r) (snd kv)) @ c # replace_scan p r b"
      using PDict.IH [of kv "snd kv", OF kv _ pv c] by (cases kv) simp
    have "replace_scan p r (?f kv @ c # b) =
            encode_string (replace_scan p r (fst kv))
              @ replace_scan p r (CHR '':'' # CHR '' '' # dumps_text (snd kv) @ c # b)"
      using replace_string_text [OF assms(1) pk assms(2)] by simp
    also have "\<dots> = encode_string (replace_scan p r (fst kv))
              @ CHR '':'' # CHR '' '' # replace_scan p r (dumps_text (snd kv) @ c # b)"
      using replace_scan_lead [OF ne pat_ok_seps(8) [OF assms(1)]]
        replace_scan_lead [OF ne pat_ok_seps(9) [OF assms(1)]]
      by simp
    finally show "replace_scan p r (?f kv @ c # b) = ?g kv @ c # replace_scan p r b"
      using v by simp
  qed
  have "replace_scan p r (intersperse '', '' (map ?f d) @ CHR ''}'' # c # b) =
          intersperse '', '' (map ?g d) @ CHR ''}'' # replace_scan p r (c # b)"
    by (rule replace_intersperse [OF ne pat_ok_seps(7) [OF assms(1)] pat_ok_seps(9) [OF assms(1)]
          each pat_ok_seps(6) [OF assms(1)]])
  then show ?case
    using replace_scan_lead [OF ne pat_ok_seps(5) [OF assms(1)]]
      replace_scan_lead [OF ne PDict.prems(2)]
    by (simp add: comp_def)
qed simp_all

lemma str_replace_dumps_text:
  assumes "pat_ok p" and "plain_str r" and "plain_json v"
  shows "str_replace (dumps_text v) p r = dumps_text (map_strs (\<lambda>s. str_replace s p r) v)"
proof -
  have ne: "p \<noteq> []" by (rule pat_ok_seps(1) [OF assms(1)])
  have q: "quote \<notin> set p" by (rule pat_ok_seps(2) [OF assms(1)])
  have "replace_scan p r (dumps_text v @ quote # []) =
          dumps_text (map_strs (replace_scan p r) v) @ quote # replace_scan p r []"
    by (rule replace_dumps_text [OF assms(1,2,3) q])
  moreover have "replace_scan p r (dumps_text v @ quote # []) =
          replace_scan p r (dumps_text v) @ quote # replace_scan p r []"
    by (rule replace_scan_sep [OF ne q])
  ultimately have "replace_scan p r (dumps_text v) = dumps_text (map_strs (replace_scan p r) v)"
    by simp
  moreover have "(\<lambda>s. str_replace s p r) = replace_scan p r"
    using ne by (auto simp: str_replace_def)
  ultimately show ?thesis by (simp add: str_replace_def ne)
qed

section \<open>Parsing the text of a value\<close>

text \<open>
  \<^verbatim>\<open>json.loads\<close> gives back a value from its text when the strings of the value need no
  escape, its numbers are decimal floats, no dict has a key twice and its nesting is
  within the recursion limit.
\<close>

fun distinct_keys :: "pyval \<Rightarrow> bool" where
  "distinct_keys (PList xs) = list_all distinct_keys xs"
| "distinct_keys (PDict d) = (distinct (map fst d) \<and> list_all (\<lambda>kv. distinct_keys (snd kv)) d)"
| "distinct_keys v = True"

text \<open>\<open>fits depth v\<close>: the containers of \<open>v\<close> are nested at most \<open>depth\<close> deep.\<close>

fun fits :: "nat \<Rightarrow> pyval \<Rightarrow> bool" where
  "fits 0 (PList xs) = False"
| "fits (Suc depth) (PList xs) = list_all (fits depth) xs"
| "fits 0 (PDict d) = False"
| "fits (Suc depth) (PDict d) = list_all (\<lambda>kv. fits depth (snd kv)) d"
| "fits depth v = True"

definition delim :: "string \<Rightarrow> bool" where
  "delim rest = (case rest of [] \<Rightarrow> True | c # cs \<Rightarrow> c \<in> set '',]}'')"

lemma plain_charD:
  "plain_char c \<Longrightarrow> c \<noteq> quote" "plain_char c \<Longrightarrow> c \<noteq> backslash"
  "plain_char c \<Longrightarrow> \<not> (of_char c :: nat) < 32"
  by (simp_all add: plain_char_def)

lemma scanstring_plain: "plain_str s \<Longrightarrow> scanstring (s @ quote # rest) = Some (s, rest)"
proof (induction s)
  case Nil
  then show ?case by simp
next
  case (Cons c s)
  then have "plain_char c" and "plain_str s"
    by (simp_all add: plain_str_def)
  with Cons.IH show ?case
    by (simp add: plain_charD)
qed

lemma skip_ws_head: "\<not> is_ws x \<Longrightarrow> skip_ws (x # xs) = x # xs"
  by (simp add: skip_ws_def)

lemma skip_ws_space: "skip_ws (CHR '' '' # xs) = skip_ws xs"
  by (simp add: skip_ws_def is_ws_def)

lemma delim_not_digit: "delim rest \<Longrightarrow> takeWhile is_digit rest = [] \<and> dropWhile is_digit rest = rest"
  by (cases rest) (auto simp: delim_def is_digit_def)

lemma delim_no_exp: "delim rest \<Longrightarrow> scan_exp rest = ([], rest)"
  by (cases rest) (auto simp: delim_def scan_exp_def)

lemma takeWhile_digits:
  assumes "list_all is_digit ds" and "stop = [] \<or> \<not> is_digit (hd stop)"
  shows "takeWhile is_digit (ds @ stop) = ds" and "dropWhile is_digit (ds @ stop) = stop"
proof -
  have a: "\<forall>x \<in> set ds. is_digit x"
    using assms(1) by (simp add: list_all_iff)
  have b: "takeWhile is_digit stop = []" "dropWhile is_digit stop = stop"
    using assms(2) by (cases stop; simp)+
  show "takeWhile is_digit (ds @ stop) = ds"
    using a b by (simp add: takeWhile_append2)
  show "dropWhile is_digit (ds @ stop) = stop"
    using a b by (simp add: dropWhile_append2)
qed

lemma scan_frac_digits:
  assumes "list_all is_digit fs" and "fs \<noteq> []" and "delim rest"
  shows "scan_frac (CHR ''.'' # fs @ rest) = (CHR ''.'' # fs, rest)"
proof -
  obtain f fs' where fs: "fs = f # fs'"
    using assms(2) by (cases fs) auto
  have f: "is_digit f"
    using assms(1) fs by simp
  have stop: "rest = [] \<or> \<not> is_digit (hd rest)"
    using assms(3) by (cases rest) (auto simp: delim_def is_digit_def)
  have "takeWhile is_digit (fs @ rest) = fs" "dropWhile is_digit (fs @ rest) = rest"
    using takeWhile_digits [OF assms(1) stop] by simp_all
  then show ?thesis
    using f fs by (simp add: scan_frac_def)
qed

lemma scan_integer_digits:
  assumes "list_all is_digit ip" and "ip \<noteq> []" and "ip = ''0'' \<or> hd ip \<noteq> CHR ''0''"
  shows "scan_integer (ip @ CHR ''.'' # after) = Some (ip, CHR ''.'' # after)"
proof -
  obtain d ds where ip: "ip = d # ds"
    using assms(2) by (cases ip) auto
  have d: "is_digit d"
    using assms(1) ip by simp
  then have minus: "d \<noteq> CHR ''-''"
    by (auto simp: is_digit_def)
  have stop: "CHR ''.'' # after = [] \<or> \<not> is_digit (hd (CHR ''.'' # after))"
    by (simp add: is_digit_def)
  have tw: "takeWhile is_digit (ip @ CHR ''.'' # after) = ip"
    "dropWhile is_digit (ip @ CHR ''.'' # after) = CHR ''.'' # after"
    using takeWhile_digits [OF assms(1) stop] by simp_all
  show ?thesis
  proof (cases "d = CHR ''0''")
    case True
    with assms(3) ip have "ds = []" by simp
    with True ip show ?thesis by (simp add: scan_integer_def)
  next
    case False
    with d minus tw ip show ?thesis by (simp add: scan_integer_def)
  qed
qed

lemma scan_number_decimal:
  assumes "is_decimal l" and "delim rest"
  shows "scan_number (l @ rest) = Some (Inr (PFloat l, rest))"
proof -
  obtain fs where l: "l = takeWhile is_digit l @ CHR ''.'' # fs" and fs: "list_all is_digit fs" "fs \<noteq> []"
    and ip: "takeWhile is_digit l \<noteq> []" "takeWhile is_digit l = ''0'' \<or> hd l \<noteq> CHR ''0''"
    using decimal_shape [OF assms(1)] by blast
  let ?ip = "takeWhile is_digit l"
  have all: "list_all is_digit ?ip"
    by (auto simp: list_all_iff dest: set_takeWhileD)
  have hd: "hd ?ip = hd l"
    using ip(1) by (cases l) (auto split: if_splits)
  have i: "scan_integer (?ip @ CHR ''.'' # fs @ rest) = Some (?ip, CHR ''.'' # fs @ rest)"
    using scan_integer_digits [OF all ip(1)] ip(2) hd by simp
  have f: "scan_frac (CHR ''.'' # fs @ rest) = (CHR ''.'' # fs, rest)"
    by (rule scan_frac_digits [OF fs assms(2)])
  have e: "scan_exp rest = ([], rest)"
    by (rule delim_no_exp [OF assms(2)])
  have "scan_number (?ip @ CHR ''.'' # fs @ rest) = Some (Inr (PFloat (?ip @ CHR ''.'' # fs), rest))"
    by (simp add: scan_number_def i f e)
  then show ?thesis
    using l by (metis append.assoc append_Cons)
qed

lemma decimal_head:
  assumes "is_decimal l"
  obtains d ds where "l = d # ds" and "is_digit d"
proof -
  obtain fs where "takeWhile is_digit l \<noteq> []"
    using decimal_shape [OF assms] by blast
  then show ?thesis
    using that by (cases l) (auto split: if_splits)
qed

lemma scan_once_decimal:
  assumes "is_decimal l" and "delim rest"
  shows "scan_once (Suc n) depth (l @ rest) = Inr (PFloat l, rest)"
proof -
  obtain d ds where l: "l = d # ds" and d: "is_digit d"
    using decimal_head [OF assms(1)] by blast
  have w: "scan_word (l @ rest) = Inr (PFloat l, rest)"
    using scan_number_decimal [OF assms] l d
    by (auto simp: scan_word_def is_digit_def)
  have "scan_once (Suc n) depth (d # ds @ rest) = scan_word (d # ds @ rest)"
    using d by (auto simp: is_digit_def quote_def)
  with w l show ?thesis by simp
qed

lemma dict_set_new: "k \<notin> fst ` set d \<Longrightarrow> dict_set d k v = d @ [(k, v)]"
  by (induction d) auto

lemma dict_of_pairs_acc:
  "distinct (map fst (acc @ ps)) \<Longrightarrow>
     foldl (\<lambda>d kv. dict_set d (fst kv) (snd kv)) acc ps = acc @ ps"
proof (induction ps arbitrary: acc)
  case Nil
  then show ?case by simp
next
  case (Cons kv ps)
  have "fst kv \<notin> fst ` set acc"
    using Cons.prems by auto
  then have "dict_set acc (fst kv) (snd kv) = acc @ [kv]"
    by (simp add: dict_set_new)
  moreover have "distinct (map fst ((acc @ [kv]) @ ps))"
    using Cons.prems by simp
  ultimately show ?case
    using Cons.IH [of "acc @ [kv]"] by simp
qed

lemma dict_of_pairs_distinct: "distinct (map fst d) \<Longrightarrow> dict_of_pairs d = d"
  using dict_of_pairs_acc [of "[]" d] by (simp add: dict_of_pairs_def)

lemma dumps_head:
  assumes "plain_json w"
  obtains c t where "dumps_text w = c # t" and "\<not> is_ws c" and "c \<noteq> CHR '']''" and "c \<noteq> CHR ''}''"
proof (cases w)
  case (PFloat l)
  with assms obtain d ds where "l = d # ds" and "is_digit d"
    using decimal_head [of l] by auto
  with PFloat that show ?thesis
    by (auto simp: is_digit_def is_ws_def)
next
  case (PStr s)
  with assms that show ?thesis
    by (simp add: encode_plain is_ws_def quote_def)
next
  case (PList xs)
  with that show ?thesis by (simp add: is_ws_def)
next
  case (PDict d)
  with that show ?thesis by (simp add: is_ws_def)
qed (use assms in simp_all)

lemma scan_array_elems:
  assumes "\<And>x m rest. x \<in> set xs \<Longrightarrow> delim rest \<Longrightarrow> 2 * length (dumps_text x) \<le> m \<Longrightarrow>
             scan_once m depth (dumps_text x @ rest) = Inr (x, rest)"
    and "\<And>x. x \<in> set xs \<Longrightarrow> plain_json x"
    and "xs \<noteq> []"
    and "2 * length (intersperse '', '' (map dumps_text xs)) + 1 \<le> n"
  shows "scan_array n depth (intersperse '', '' (map dumps_text xs) @ CHR '']'' # rest) = Inr (xs, rest)"
  using assms
proof (induction xs arbitrary: n)
  case Nil
  then show ?case by simp
next
  case (Cons x xs)
  obtain m where n: "n = Suc m"
    using Cons.prems(4) by (cases n) auto
  show ?case
  proof (cases xs)
    case Nil
    have "scan_once m depth (dumps_text x @ CHR '']'' # rest) = Inr (x, CHR '']'' # rest)"
      using Cons.prems(1) [of x "CHR '']'' # rest" m] Cons.prems(4) n Nil
      by (simp add: delim_def)
    then show ?thesis
      using n Nil by (simp add: skip_ws_def is_ws_def)
  next
    case inner: (Cons y ys)
    let ?T = "intersperse '', '' (map dumps_text xs) @ CHR '']'' # rest"
    have py: "plain_json y"
      using Cons.prems(2) [of y] inner by simp
    obtain c t where hd: "dumps_text y = c # t" and ws: "\<not> is_ws c"
      using dumps_head [OF py] by blast
    have T: "skip_ws ?T = ?T"
      using inner hd ws by (cases ys) (simp_all add: skip_ws_def)
    have len: "2 * length (dumps_text x) \<le> m"
      "2 * length (intersperse '', '' (map dumps_text xs)) + 1 \<le> m"
      using Cons.prems(4) n inner by simp_all
    have one: "scan_once m depth (dumps_text x @ CHR '','' # CHR '' '' # ?T)
                 = Inr (x, CHR '','' # CHR '' '' # ?T)"
      using Cons.prems(1) [of x "CHR '','' # CHR '' '' # ?T" m] len(1)
      by (simp add: delim_def)
    have rest: "scan_array m depth ?T = Inr (xs, rest)"
      using Cons.IH [of m] Cons.prems(1,2) len(2) inner by simp
    show ?thesis
      using n inner one rest T
      by (simp add: skip_ws_head is_ws_def skip_ws_space)
  qed
qed

lemma intersperse_head:
  "f x = c # t \<Longrightarrow> \<exists>t'. intersperse sep (map f (x # xs)) = c # t'"
  by (cases xs) auto

lemma scan_object_members:
  assumes "\<And>kv m rest. kv \<in> set d \<Longrightarrow> delim rest \<Longrightarrow> 2 * length (dumps_text (snd kv)) \<le> m \<Longrightarrow>
             scan_once m depth (dumps_text (snd kv) @ rest) = Inr (snd kv, rest)"
    and "\<And>kv. kv \<in> set d \<Longrightarrow> plain_str (fst kv) \<and> plain_json (snd kv)"
    and "d \<noteq> []"
    and "2 * length (intersperse '', ''
            (map (\<lambda>kv. encode_string (fst kv) @ '': '' @ dumps_text (snd kv)) d)) + 1 \<le> n"
  shows "scan_object n depth (intersperse '', ''
            (map (\<lambda>kv. encode_string (fst kv) @ '': '' @ dumps_text (snd kv)) d)
            @ CHR ''}'' # rest) = Inr (d, rest)"
  using assms
proof (induction d arbitrary: n)
  case Nil
  then show ?case by simp
next
  case (Cons kv d)
  let ?f = "\<lambda>kv. encode_string (fst kv) @ '': '' @ dumps_text (snd kv)"
  obtain m where n: "n = Suc m"
    using Cons.prems(4) by (cases n) auto
  have pk: "plain_str (fst kv)" and pv: "plain_json (snd kv)"
    using Cons.prems(2) [of kv] by simp_all
  obtain c t where hd: "dumps_text (snd kv) = c # t" and ws: "\<not> is_ws c"
    using dumps_head [OF pv] by blast
  have key: "\<And>R. scanstring (fst kv @ quote # R) = Some (fst kv, R)"
    by (rule scanstring_plain [OF pk])
  have colon: "\<And>R. skip_ws (CHR '':'' # R) = CHR '':'' # R"
    by (simp add: skip_ws_def is_ws_def)
  have val_ws: "\<And>R. skip_ws (CHR '' '' # dumps_text (snd kv) @ R) = dumps_text (snd kv) @ R"
    using hd ws by (simp add: skip_ws_def is_ws_def)
  show ?case
  proof (cases d)
    case Nil
    have v: "scan_once m depth (dumps_text (snd kv) @ CHR ''}'' # rest) = Inr (snd kv, CHR ''}'' # rest)"
      using Cons.prems(1) [of kv "CHR ''}'' # rest" m] Cons.prems(4) n Nil
      by (simp add: delim_def)
    have close: "skip_ws (CHR ''}'' # rest) = CHR ''}'' # rest"
      by (simp add: skip_ws_def is_ws_def)
    show ?thesis
      using n Nil by (simp add: encode_plain [OF pk] key colon val_ws v close)
  next
    case inner: (Cons kv' d')
    define T where "T = intersperse '', '' (map ?f d) @ CHR ''}'' # rest"
    have pk': "plain_str (fst kv')"
      using Cons.prems(2) [of kv'] inner by simp
    have "\<exists>t'. intersperse '', '' (map ?f (kv' # d')) = quote # t'"
      by (rule intersperse_head) (simp add: encode_plain [OF pk'])
    then obtain t' where T: "T = quote # t' @ CHR ''}'' # rest"
      using inner by (auto simp: T_def)
    have Tws: "skip_ws (CHR '' '' # T) = T"
      unfolding T by (simp add: skip_ws_def is_ws_def quote_def)
    have len: "2 * length (dumps_text (snd kv)) \<le> m"
      "2 * length (intersperse '', '' (map ?f d)) + 1 \<le> m"
      using Cons.prems(4) n inner by simp_all
    have v: "scan_once m depth (dumps_text (snd kv) @ CHR '','' # CHR '' '' # T)
               = Inr (snd kv, CHR '','' # CHR '' '' # T)"
      using Cons.prems(1) [of kv "CHR '','' # CHR '' '' # T" m] len(1)
      by (simp add: delim_def)
    have comma: "skip_ws (CHR '','' # CHR '' '' # T) = CHR '','' # CHR '' '' # T"
      by (simp add: skip_ws_def is_ws_def)
    have rest: "scan_object m depth T = Inr (d, rest)"
      unfolding T_def using Cons.IH [of m] Cons.prems(1,2) len(2) inner by simp
    have shape: "intersperse '', '' (map ?f (kv # d)) @ CHR ''}'' # rest
                  = quote # fst kv @ quote # CHR '':'' # CHR '' '' # dumps_text (snd kv)
                      @ CHR '','' # CHR '' '' # T"
      using inner by (simp add: encode_plain [OF pk] T_def)
    show ?thesis
      unfolding shape n
      by (simp add: key colon val_ws v comma Tws rest)
  qed
qed

lemma scan_once_dumps:
  "plain_json w \<Longrightarrow> distinct_keys w \<Longrightarrow> delim rest \<Longrightarrow> 2 * length (dumps_text w) \<le> n \<Longrightarrow>
     fits depth w \<Longrightarrow> scan_once n depth (dumps_text w @ rest) = Inr (w, rest)"
proof (induction w arbitrary: n rest depth)
  case (PFloat l)
  then have "is_decimal l" by simp
  then obtain d ds where "l = d # ds"
    using decimal_head [of l] by blast
  with PFloat.prems(4) obtain m where "n = Suc m"
    by (cases n) auto
  with PFloat show ?case
    using scan_once_decimal [of l rest m depth] by simp
next
  case (PStr s)
  then obtain m where "n = Suc m"
    by (cases n) (auto simp: encode_plain)
  with PStr show ?case
    by (simp add: encode_plain scanstring_plain)
next
  case (PList xs)
  obtain m where n: "n = Suc m"
    using PList.prems(4) by (cases n) auto
  obtain dp where dp: "depth = Suc dp" and inner_fits: "list_all (fits dp) xs"
    using PList.prems(5) by (cases depth) auto
  show ?case
  proof (cases xs)
    case Nil
    then show ?thesis
      using n dp by (simp add: skip_ws_def is_ws_def quote_def)
  next
    case (Cons y ys)
    let ?I = "intersperse '', '' (map dumps_text xs)"
    have py: "plain_json y"
      using PList.prems(1) Cons by simp
    obtain c t where hd: "dumps_text y = c # t" and ws: "\<not> is_ws c" and br: "c \<noteq> CHR '']''"
      using dumps_head [OF py] by blast
    obtain t' where I: "?I = c # t'"
      using intersperse_head [where f = dumps_text, OF hd, of "'', ''" ys] Cons by auto
    have each: "\<And>x m rest. x \<in> set xs \<Longrightarrow> delim rest \<Longrightarrow> 2 * length (dumps_text x) \<le> m \<Longrightarrow>
             scan_once m dp (dumps_text x @ rest) = Inr (x, rest)"
      using PList.IH PList.prems(1,2) inner_fits by (simp add: list_all_iff)
    have plain: "\<And>x. x \<in> set xs \<Longrightarrow> plain_json x"
      using PList.prems(1) by (simp add: list_all_iff)
    have len: "2 * length ?I + 1 \<le> m"
      using PList.prems(4) n by simp
    have ne: "xs \<noteq> []"
      using Cons by simp
    have arr: "scan_array m dp (?I @ CHR '']'' # rest) = Inr (xs, rest)"
      by (rule scan_array_elems [where xs = xs, OF each plain ne len])
    have "scan_once (Suc m) (Suc dp) (CHR ''['' # c # t' @ CHR '']'' # rest)
            = (case scan_array m dp (c # t' @ CHR '']'' # rest) of
                 Inl e \<Rightarrow> Inl e | Inr (vs, r) \<Rightarrow> Inr (PList vs, r))"
      using ws br by (simp add: skip_ws_def quote_def)
    then show ?thesis
      using arr I n dp by simp
  qed
next
  case (PDict d)
  let ?f = "\<lambda>kv. encode_string (fst kv) @ '': '' @ dumps_text (snd kv)"
  obtain m where n: "n = Suc m"
    using PDict.prems(4) by (cases n) auto
  obtain dp where dp: "depth = Suc dp" and inner_fits: "list_all (\<lambda>kv. fits dp (snd kv)) d"
    using PDict.prems(5) by (cases depth) auto
  show ?case
  proof (cases d)
    case Nil
    then show ?thesis
      using n dp by (simp add: skip_ws_def is_ws_def quote_def dict_of_pairs_def)
  next
    case (Cons kv d')
    let ?I = "intersperse '', '' (map ?f d)"
    have pk: "plain_str (fst kv)"
      using PDict.prems(1) Cons by simp
    have "\<exists>t'. intersperse '', '' (map ?f (kv # d')) = quote # t'"
      by (rule intersperse_head) (simp add: encode_plain [OF pk])
    then obtain t' where I: "?I = quote # t'"
      using Cons by auto
    have each: "\<And>kv m rest. kv \<in> set d \<Longrightarrow> delim rest \<Longrightarrow>
             2 * length (dumps_text (snd kv)) \<le> m \<Longrightarrow>
             scan_once m dp (dumps_text (snd kv) @ rest) = Inr (snd kv, rest)"
    proof -
      fix kv m rest
      assume kv: "kv \<in> set d" and r: "delim rest" and m: "2 * length (dumps_text (snd kv)) \<le> m"
      have "plain_json (snd kv)" "distinct_keys (snd kv)" "fits dp (snd kv)"
        using PDict.prems(1,2) inner_fits kv by (simp_all add: list_all_iff)
      then show "scan_once m dp (dumps_text (snd kv) @ rest) = Inr (snd kv, rest)"
        using PDict.IH [of kv "snd kv" rest m dp] kv r m by (cases kv) simp
    qed
    have plain: "\<And>kv. kv \<in> set d \<Longrightarrow> plain_str (fst kv) \<and> plain_json (snd kv)"
      using PDict.prems(1) by (simp add: list_all_iff)
    have len: "2 * length ?I + 1 \<le> m"
      using PDict.prems(4) n by simp
    have ne: "d \<noteq> []"
      using Cons by simp
    have obj: "scan_object m dp (?I @ CHR ''}'' # rest) = Inr (d, rest)"
      by (rule scan_object_members [where d = d, OF each plain ne len])
    have "scan_once (Suc m) (Suc dp) (CHR ''{'' # quote # t' @ CHR ''}'' # rest)
            = (case scan_object m dp (quote # t' @ CHR ''}'' # rest) of
                 Inl e \<Rightarrow> Inl e | Inr (ps, r) \<Rightarrow> Inr (PDict (dict_of_pairs ps), r))"
      by (simp add: skip_ws_def quote_def is_ws_def)
    then show ?thesis
      using obj I n dp PDict.prems(2) by (simp add: dict_of_pairs_distinct)
  qed
qed simp_all

lemma json_loads_dumps:
  assumes "plain_json w" and "distinct_keys w" and "fits RECURSION_LIMIT w"
  shows "json_loads (dumps_text w) = Inr w"
proof -
  obtain c t where hd: "dumps_text w = c # t" and ws: "\<not> is_ws c"
    using dumps_head [OF assms(1)] by blast
  have "scan_once (2 * length (dumps_text w) + 2) RECURSION_LIMIT (dumps_text w @ []) = Inr (w, [])"
    by (rule scan_once_dumps [OF assms(1,2) _ _ assms(3)]) (simp_all add: delim_def)
  then show ?thesis
    using hd ws by (simp add: json_loads_def skip_ws_def)
qed

section \<open>Fuel\<close>

text \<open>
  Every scanner consumes what it reads, so the fuel that \<open>json_loads\<close> gives is never
  used up: with more fuel the result, a value or an exception, is the same.
\<close>

lemma skip_ws_length: "length (skip_ws s) \<le> length s"
  by (simp add: skip_ws_def length_dropWhile_le)

lemma scanstring_consumes: "scanstring s = Some (t, r) \<Longrightarrow> length r < length s"
proof (induction s arbitrary: t r rule: scanstring.induct)
  case 1
  then show ?case by simp
next
  case (2 c cs)
  show ?case
  proof (cases "c = quote")
    case True
    with "2.prems" show ?thesis by simp
  next
    case nq: False
    show ?thesis
    proof (cases "c = backslash")
      case True
      then obtain e rs where cs: "cs = e # rs"
        using "2.prems" nq by (cases cs) auto
      show ?thesis
      proof (cases "e = CHR ''u''")
        case u: True
        with "2.prems" nq True cs have ok: "unicode_ok rs"
          by (auto split: if_splits)
        with "2.prems" nq True cs u obtain t'
          where "scanstring (drop (unicode_len rs) rs) = Some (t', r)"
          by (auto split: option.splits)
        then have "length r < length (drop (unicode_len rs) rs)"
          using "2.IH"(1) [OF nq True cs u ok] by simp
        then show ?thesis using cs by simp
      next
        case nu: False
        with "2.prems" nq True cs obtain u' t' where un: "unescape e = Some u'"
          and "scanstring rs = Some (t', r)"
          by (auto split: option.splits)
        then have "length r < length rs"
          using "2.IH"(2) [OF nq True cs nu un] by simp
        then show ?thesis using cs by simp
      qed
    next
      case nb: False
      with "2.prems" nq obtain t' where ctl: "\<not> (of_char c :: nat) < 32"
        and "scanstring cs = Some (t', r)"
        by (auto split: if_splits option.splits)
      then have "length r < length cs"
        using "2.IH"(3) [OF nq nb ctl] by simp
      then show ?thesis by simp
    qed
  qed
qed

lemma skip_ws_Cons_length: "skip_ws s = x # xs \<Longrightarrow> length xs < length s"
  using skip_ws_length [of s] by simp

lemma dropWhile_digit_length: "length (dropWhile is_digit s) \<le> length s"
  by (rule length_dropWhile_le)

lemma scan_integer_consumes: "scan_integer s = Some (i, r) \<Longrightarrow> length r < length s"
proof (cases s)
  case Nil
  then show "scan_integer s = Some (i, r) \<Longrightarrow> length r < length s"
    by (simp add: scan_integer_def)
next
  case (Cons c cs)
  assume a: "scan_integer s = Some (i, r)"
  show "length r < length s"
  proof (cases "c = CHR ''-''")
    case True
    then obtain d ds where cs: "cs = d # ds"
      using a Cons by (cases cs) (auto simp: scan_integer_def)
    have "length r \<le> length ds"
      using a Cons True cs dropWhile_digit_length [of ds]
      by (auto simp: scan_integer_def split: if_splits)
    then show ?thesis using Cons cs by simp
  next
    case False
    have "length r \<le> length cs"
      using a Cons False dropWhile_digit_length [of cs]
      by (auto simp: scan_integer_def split: if_splits)
    then show ?thesis using Cons by simp
  qed
qed

lemma scan_frac_length: "scan_frac s = (f, r) \<Longrightarrow> length r \<le> length s"
proof -
  assume a: "scan_frac s = (f, r)"
  show ?thesis
  proof (cases s)
    case Nil
    with a show ?thesis by (simp add: scan_frac_def)
  next
    case c1: (Cons c cs)
    show ?thesis
    proof (cases cs)
      case Nil
      with a c1 show ?thesis by (simp add: scan_frac_def)
    next
      case (Cons d ds)
      have "length (dropWhile is_digit (d # ds)) \<le> length (d # ds)"
        by (rule dropWhile_digit_length)
      with a c1 Cons show ?thesis
        by (auto simp: scan_frac_def split: if_splits)
    qed
  qed
qed

lemma scan_exp_length: "scan_exp s = (e, r) \<Longrightarrow> length r \<le> length s"
proof -
  assume a: "scan_exp s = (e, r)"
  show ?thesis
  proof (cases s)
    case Nil
    with a show ?thesis by (simp add: scan_exp_def)
  next
    case c1: (Cons c cs)
    show ?thesis
    proof (cases "c = CHR ''e'' \<or> c = CHR ''E''")
      case False
      with a c1 show ?thesis by (auto simp: scan_exp_def)
    next
      case True
      show ?thesis
      proof (cases cs)
        case Nil
        with a c1 True show ?thesis by (auto simp: scan_exp_def)
      next
        case (Cons g gs)
        have 1: "length (dropWhile is_digit cs) \<le> length cs"
          by (rule dropWhile_digit_length)
        have 2: "length (dropWhile is_digit gs) \<le> length gs"
          by (rule dropWhile_digit_length)
        show ?thesis
        proof (cases "g = CHR ''-'' \<or> g = CHR ''+''")
          case sg: True
          with a c1 True Cons 2 show ?thesis
            by (cases gs) (auto simp: scan_exp_def split: if_splits)
        next
          case nsg: False
          with a c1 True Cons 1 show ?thesis
            by (auto simp: scan_exp_def split: if_splits)
        qed
      qed
    qed
  qed
qed

lemma scan_number_consumes: "scan_number s = Some (Inr (v, r)) \<Longrightarrow> length r < length s"
proof -
  assume a: "scan_number s = Some (Inr (v, r))"
  then obtain i r0 where i: "scan_integer s = Some (i, r0)"
    by (auto simp: scan_number_def split: option.splits)
  obtain f r1 where f: "scan_frac r0 = (f, r1)"
    by (cases "scan_frac r0") auto
  obtain e r2 where e: "scan_exp r1 = (e, r2)"
    by (cases "scan_exp r1") auto
  have "r = r2"
    using a i f e by (auto simp: scan_number_def split: if_splits)
  then show ?thesis
    using scan_integer_consumes [OF i] scan_frac_length [OF f] scan_exp_length [OF e] by simp
qed

lemma drop_starts_with: "starts_with s p \<Longrightarrow> p \<noteq> [] \<Longrightarrow> length (drop (length p) s) < length s"
  using starts_with_length [of s p] by (cases s) auto

lemma scan_word_consumes: "scan_word s = Inr (v, r) \<Longrightarrow> length r < length s"
proof -
  assume a: "scan_word s = Inr (v, r)"
  have d: "\<And>p. starts_with s p \<Longrightarrow> p \<noteq> [] \<Longrightarrow> length (drop (length p) s) < length s"
    by (rule drop_starts_with)
  show ?thesis
  proof (cases "scan_number s")
    case None
    with a d [of "''null''"] d [of "''true''"] d [of "''false''"] d [of "''NaN''"]
      d [of "''Infinity''"] d [of "''-Infinity''"]
    show ?thesis
      by (auto simp: scan_word_def split: if_splits)
  next
    case (Some res)
    show ?thesis
    proof (cases "starts_with s ''null'' \<or> starts_with s ''true'' \<or> starts_with s ''false''")
      case True
      with a d [of "''null''"] d [of "''true''"] d [of "''false''"] show ?thesis
        by (auto simp: scan_word_def split: if_splits)
    next
      case False
      with a Some have "scan_number s = Some (Inr (v, r))"
        by (simp add: scan_word_def)
      then show ?thesis by (rule scan_number_consumes)
    qed
  qed
qed

lemma scan_consumes:
  "(\<forall>depth s v r. scan_once n depth s = Inr (v, r) \<longrightarrow> length r < length s)
   \<and> (\<forall>depth s vs r. scan_array n depth s = Inr (vs, r) \<longrightarrow> length r < length s)
   \<and> (\<forall>depth s ps r. scan_object n depth s = Inr (ps, r) \<longrightarrow> length r < length s)"
proof (induction n)
  case 0
  show ?case by simp
next
  case (Suc n)
  have once: "\<And>depth s v r. scan_once n depth s = Inr (v, r) \<Longrightarrow> length r < length s"
    and arr: "\<And>depth s vs r. scan_array n depth s = Inr (vs, r) \<Longrightarrow> length r < length s"
    and obj: "\<And>depth s ps r. scan_object n depth s = Inr (ps, r) \<Longrightarrow> length r < length s"
    using Suc by blast+
  have 1: "\<And>depth s v r. scan_once (Suc n) depth s = Inr (v, r) \<Longrightarrow> length r < length s"
  proof -
    fix depth s v r
    assume a: "scan_once (Suc n) depth s = Inr (v, r)"
    then obtain c cs where s: "s = c # cs"
      by (cases s) auto
    show "length r < length s"
    proof (cases "c = quote")
      case True
      with a s obtain t where "scanstring cs = Some (t, r)"
        by (auto split: option.splits)
      then show ?thesis
        using scanstring_consumes [of cs t r] s by simp
    next
      case nq: False
      show ?thesis
      proof (cases "c = CHR ''{''")
        case True
        with a s nq obtain dp where dp: "depth = Suc dp"
          by (cases depth) auto
        with a s nq True obtain x xs where sk: "skip_ws cs = x # xs"
          by (cases "skip_ws cs") auto
        have xs: "length xs < length cs"
          by (rule skip_ws_Cons_length [OF sk])
        show ?thesis
        proof (cases "x = CHR ''}''")
          case b: True
          with a s nq True dp sk have "r = xs" by simp
          with xs s show ?thesis by simp
        next
          case b: False
          with a s nq True dp sk obtain ps where "scan_object n dp (x # xs) = Inr (ps, r)"
            by (auto split: sum.splits)
          then have "length r < length (x # xs)" by (rule obj)
          with xs s show ?thesis by simp
        qed
      next
        case no: False
        show ?thesis
        proof (cases "c = CHR ''[''")
          case True
          with a s nq no obtain dp where dp: "depth = Suc dp"
            by (cases depth) auto
          with a s nq no True obtain x xs where sk: "skip_ws cs = x # xs"
            by (cases "skip_ws cs") auto
          have xs: "length xs < length cs"
            by (rule skip_ws_Cons_length [OF sk])
          show ?thesis
          proof (cases "x = CHR '']''")
            case b: True
            with a s nq no True dp sk have "r = xs" by simp
            with xs s show ?thesis by simp
          next
            case b: False
            with a s nq no True dp sk obtain vs where "scan_array n dp (x # xs) = Inr (vs, r)"
              by (auto split: sum.splits)
            then have "length r < length (x # xs)" by (rule arr)
            with xs s show ?thesis by simp
          qed
        next
          case False
          with a s nq no have "scan_word (c # cs) = Inr (v, r)" by simp
          then show ?thesis
            using scan_word_consumes [of "c # cs" v r] s by simp
        qed
      qed
    qed
  qed
  have 2: "\<And>depth s vs r. scan_array (Suc n) depth s = Inr (vs, r) \<Longrightarrow> length r < length s"
  proof -
    fix depth s vs r
    assume a: "scan_array (Suc n) depth s = Inr (vs, r)"
    then obtain v r1 where v: "scan_once n depth s = Inr (v, r1)"
      by (auto split: sum.splits)
    have r1: "length r1 < length s" by (rule once [OF v])
    from a v obtain x xs where sk: "skip_ws r1 = x # xs"
      by (cases "skip_ws r1") auto
    have xs: "length xs < length r1"
      by (rule skip_ws_Cons_length [OF sk])
    show "length r < length s"
    proof (cases "x = CHR '']''")
      case True
      with a v sk have "r = xs" by simp
      with xs r1 show ?thesis by simp
    next
      case False
      with a v sk obtain vs' where "scan_array n depth (skip_ws xs) = Inr (vs', r)"
        by (auto split: sum.splits if_splits)
      then have "length r < length (skip_ws xs)" by (rule arr)
      with skip_ws_length [of xs] xs r1 show ?thesis by simp
    qed
  qed
  have 3: "\<And>depth s ps r. scan_object (Suc n) depth s = Inr (ps, r) \<Longrightarrow> length r < length s"
  proof -
    fix depth s ps r
    assume a: "scan_object (Suc n) depth s = Inr (ps, r)"
    then obtain q cs where s: "s = q # cs"
      by (cases s) auto
    from a s have q: "q = quote"
      by (auto split: if_splits)
    from a s q obtain k r0 where k: "scanstring cs = Some (k, r0)"
      by (auto split: option.splits)
    have r0: "length r0 < length cs" by (rule scanstring_consumes [OF k])
    from a s q k obtain x xs where sk: "skip_ws r0 = x # xs"
      by (cases "skip_ws r0") auto
    have xs: "length xs < length r0"
      by (rule skip_ws_Cons_length [OF sk])
    from a s q k sk have col: "x = CHR '':''"
      by (auto split: if_splits)
    from a s q k sk col obtain v r1 where v: "scan_once n depth (skip_ws xs) = Inr (v, r1)"
      by (auto split: sum.splits)
    have r1: "length r1 < length (skip_ws xs)" by (rule once [OF v])
    from a s q k sk col v obtain y ys where sk2: "skip_ws r1 = y # ys"
      by (cases "skip_ws r1") auto
    have ys: "length ys < length r1"
      by (rule skip_ws_Cons_length [OF sk2])
    show "length r < length s"
    proof (cases "y = CHR ''}''")
      case True
      with a s q k sk col v sk2 have "r = ys" by simp
      with ys r1 skip_ws_length [of xs] xs r0 s show ?thesis by simp
    next
      case False
      with a s q k sk col v sk2 obtain ps' where "scan_object n depth (skip_ws ys) = Inr (ps', r)"
        by (auto split: sum.splits if_splits)
      then have "length r < length (skip_ws ys)" by (rule obj)
      with skip_ws_length [of ys] ys r1 skip_ws_length [of xs] xs r0 s show ?thesis by simp
    qed
  qed
  from 1 2 3 show ?case by blast
qed

lemma scan_once_consumes: "scan_once n depth s = Inr (v, r) \<Longrightarrow> length r < length s"
  using scan_consumes [of n] by blast

lemma fuel_enough:
  "(\<forall>depth s. 2 * length s + 2 \<le> n \<longrightarrow> scan_once (n + k) depth s = scan_once n depth s)
   \<and> (\<forall>depth s. 2 * length s + 3 \<le> n \<longrightarrow> scan_array (n + k) depth s = scan_array n depth s)
   \<and> (\<forall>depth s. 2 * length s + 3 \<le> n \<longrightarrow> scan_object (n + k) depth s = scan_object n depth s)"
proof (induction n)
  case 0
  show ?case by simp
next
  case (Suc n)
  have once: "\<And>depth s. 2 * length s + 2 \<le> n \<Longrightarrow> scan_once (n + k) depth s = scan_once n depth s"
    and arr: "\<And>depth s. 2 * length s + 3 \<le> n \<Longrightarrow> scan_array (n + k) depth s = scan_array n depth s"
    and obj: "\<And>depth s. 2 * length s + 3 \<le> n \<Longrightarrow> scan_object (n + k) depth s = scan_object n depth s"
    using Suc by blast+
  have 1: "\<And>depth s. 2 * length s + 2 \<le> Suc n \<Longrightarrow>
             scan_once (Suc n + k) depth s = scan_once (Suc n) depth s"
  proof -
    fix depth :: nat and s :: string
    assume b: "2 * length s + 2 \<le> Suc n"
    show "scan_once (Suc n + k) depth s = scan_once (Suc n) depth s"
    proof (cases s)
      case Nil
      then show ?thesis by simp
    next
      case (Cons c cs)
      have A: "\<And>dp x xs. skip_ws cs = x # xs \<Longrightarrow>
                 scan_object (n + k) dp (x # xs) = scan_object n dp (x # xs)"
      proof -
        fix dp :: nat and x xs assume "skip_ws cs = x # xs"
        then have "length (x # xs) \<le> length cs"
          using skip_ws_length [of cs] by simp
        with b Cons show "scan_object (n + k) dp (x # xs) = scan_object n dp (x # xs)"
          by (intro obj) simp
      qed
      have B: "\<And>dp x xs. skip_ws cs = x # xs \<Longrightarrow>
                 scan_array (n + k) dp (x # xs) = scan_array n dp (x # xs)"
      proof -
        fix dp :: nat and x xs assume "skip_ws cs = x # xs"
        then have "length (x # xs) \<le> length cs"
          using skip_ws_length [of cs] by simp
        with b Cons show "scan_array (n + k) dp (x # xs) = scan_array n dp (x # xs)"
          by (intro arr) simp
      qed
      show ?thesis
      proof (cases "skip_ws cs")
        case Nil
        with Cons show ?thesis by (cases depth) simp_all
      next
        case sk: (Cons x xs)
        show ?thesis
          using A [OF sk] B [OF sk] Cons sk by (cases depth) auto
      qed
    qed
  qed
  have 2: "\<And>depth s. 2 * length s + 3 \<le> Suc n \<Longrightarrow>
             scan_array (Suc n + k) depth s = scan_array (Suc n) depth s"
  proof -
    fix depth :: nat and s :: string
    assume b: "2 * length s + 3 \<le> Suc n"
    then have o: "scan_once (n + k) depth s = scan_once n depth s"
      by (intro once) simp
    show "scan_array (Suc n + k) depth s = scan_array (Suc n) depth s"
    proof (cases "scan_once n depth s")
      case (Inl e)
      with o show ?thesis by simp
    next
      case Some: (Inr vr)
      obtain v r where vr: "vr = (v, r)" by (cases vr)
      have r: "length r < length s"
        using scan_once_consumes [of n depth s v r] Some vr by simp
      show ?thesis
      proof (cases "skip_ws r")
        case Nil
        with o Some vr show ?thesis by simp
      next
        case (Cons x xs)
        have "length xs < length r"
          by (rule skip_ws_Cons_length [OF Cons])
        with r b skip_ws_length [of xs] have "2 * length (skip_ws xs) + 3 \<le> n"
          by simp
        then have "scan_array (n + k) depth (skip_ws xs) = scan_array n depth (skip_ws xs)"
          by (rule arr)
        with o Some vr Cons show ?thesis by simp
      qed
    qed
  qed
  have 3: "\<And>depth s. 2 * length s + 3 \<le> Suc n \<Longrightarrow>
             scan_object (Suc n + k) depth s = scan_object (Suc n) depth s"
  proof -
    fix depth :: nat and s :: string
    assume b: "2 * length s + 3 \<le> Suc n"
    show "scan_object (Suc n + k) depth s = scan_object (Suc n) depth s"
    proof (cases s)
      case Nil
      then show ?thesis by simp
    next
      case s: (Cons q cs)
      show ?thesis
      proof (cases "scanstring cs")
        case None
        with s show ?thesis by simp
      next
        case (Some kr)
        obtain key r0 where kr: "kr = (key, r0)" by (cases kr)
        have r0: "length r0 < length cs"
          using scanstring_consumes [of cs key r0] Some kr by simp
        show ?thesis
        proof (cases "skip_ws r0")
          case Nil
          with s Some kr show ?thesis by simp
        next
          case sk: (Cons x xs)
          have xs: "length xs < length r0"
            by (rule skip_ws_Cons_length [OF sk])
          with r0 b s skip_ws_length [of xs] have "2 * length (skip_ws xs) + 2 \<le> n"
            by simp
          then have o: "scan_once (n + k) depth (skip_ws xs) = scan_once n depth (skip_ws xs)"
            by (rule once)
          show ?thesis
          proof (cases "scan_once n depth (skip_ws xs)")
            case (Inl e)
            with o s Some kr sk show ?thesis by simp
          next
            case v: (Inr vr)
            obtain v' r1 where vr: "vr = (v', r1)" by (cases vr)
            have r1: "length r1 < length (skip_ws xs)"
              using scan_once_consumes [of n depth "skip_ws xs" v' r1] v vr by simp
            show ?thesis
            proof (cases "skip_ws r1")
              case Nil
              with o s Some kr sk v vr show ?thesis by simp
            next
              case sk2: (Cons y ys)
              have "length ys < length r1"
                by (rule skip_ws_Cons_length [OF sk2])
              with r1 xs r0 b s skip_ws_length [of xs] skip_ws_length [of ys]
              have "2 * length (skip_ws ys) + 3 \<le> n"
                by simp
              then have "scan_object (n + k) depth (skip_ws ys) = scan_object n depth (skip_ws ys)"
                by (rule obj)
              with o s Some kr sk v vr sk2 show ?thesis by simp
            qed
          qed
        qed
      qed
    qed
  qed
  from 1 2 3 show ?case by blast
qed

text \<open>With any larger fuel \<open>json_loads\<close> would give the same result.\<close>

lemma json_loads_fuel:
  "scan_once (2 * length s + 2 + k) depth (skip_ws s) = scan_once (2 * length s + 2) depth (skip_ws s)"
proof -
  have "2 * length (skip_ws s) + 2 \<le> 2 * length s + 2"
    using skip_ws_length [of s] by simp
  then show ?thesis
    using fuel_enough [of "2 * length s + 2" k] by blast
qed

section \<open>The casing transform on a schedule\<close>

lemma snds_snd: "snd kv \<in> Basic_BNFs.snds kv"
  by (cases kv) simp

lemma map_strs_comp: "map_strs f (map_strs g v) = map_strs (\<lambda>s. f (g s)) v"
  by (induction v) (simp_all add: snds_snd)

lemma map_strs_id: "map_strs (\<lambda>s. s) v = v"
proof (induction v)
  case (PList xs)
  then show ?case by (simp add: map_idI)
next
  case (PDict d)
  then have "\<And>kv. kv \<in> set d \<Longrightarrow> (fst kv, map_strs (\<lambda>s. s) (snd kv)) = kv"
    using snds_snd by (metis prod.collapse)
  then show ?case by (simp add: map_idI)
qed simp_all

lemma str_replace_scan: "p \<noteq> [] \<Longrightarrow> (\<lambda>s. str_replace s p r) = replace_scan p r"
  by (auto simp: str_replace_def)

lemma fold_replace_dumps:
  assumes "list_all (\<lambda>k. pat_ok k \<and> plain_str (capitalize k)) ks"
  shows "plain_json v \<Longrightarrow>
     foldl (\<lambda>t k. str_replace t k (capitalize k)) (dumps_text v) ks =
       dumps_text (map_strs (\<lambda>s. foldl (\<lambda>t k. str_replace t k (capitalize k)) s ks) v)
     \<and> plain_json (map_strs (\<lambda>s. foldl (\<lambda>t k. str_replace t k (capitalize k)) s ks) v)"
  using assms
proof (induction ks arbitrary: v)
  case Nil
  with map_strs_id [of v] show ?case by simp
next
  case (Cons k ks)
  let ?v = "map_strs (\<lambda>s. str_replace s k (capitalize k)) v"
  have k: "pat_ok k" "plain_str (capitalize k)" and ks: "list_all (\<lambda>k. pat_ok k \<and> plain_str (capitalize k)) ks"
    using Cons.prems(2) by simp_all
  have ne: "k \<noteq> []"
    by (rule pat_ok_seps(1) [OF k(1)])
  have step: "str_replace (dumps_text v) k (capitalize k) = dumps_text ?v"
    by (rule str_replace_dumps_text [OF k Cons.prems(1)])
  have plain: "plain_json ?v"
    using plain_json_map_strs [OF k(2) Cons.prems(1), of k] str_replace_scan [OF ne, of "capitalize k"]
    by simp
  show ?case
    using Cons.IH [OF plain ks] step by (simp add: map_strs_comp)
qed

lemma plain_char_letter:
  "c \<in> set ''abcdefghijklmnopqrstuvwxyzABCDEFGHIJKLMNOPQRSTUVWXYZ0123456789:.'' \<Longrightarrow> plain_char c"
  by (auto simp: plain_char_def quote_def backslash_def)

lemma plain_str_letters:
  "list_all (\<lambda>c. c \<in> set ''abcdefghijklmnopqrstuvwxyzABCDEFGHIJKLMNOPQRSTUVWXYZ0123456789:.'') s
     \<Longrightarrow> plain_str s"
  using plain_char_letter by (auto simp: plain_str_def list_all_iff)

lemma capitalized_keys_ok:
  "list_all (\<lambda>k. pat_ok k \<and> plain_str (capitalize k)) CAPITALIZED_KEYS"
proof -
  have "list_all pat_ok CAPITALIZED_KEYS"
    by (simp add: CAPITALIZED_KEYS_def SZ_defs pat_ok_def quote_def)
  moreover have "list_all (\<lambda>k. plain_str (capitalize k)) CAPITALIZED_KEYS"
    by (simp add: CAPITALIZED_KEYS_def SZ_defs capitalize_def to_upper_def to_lower_def
        plain_str_letters)
  ultimately show ?thesis
    by (simp add: list_all_iff)
qed

lemma capitalize_keys_dumps:
  assumes "plain_json v"
  shows "capitalize_keys (dumps_text v) = dumps_text (map_strs capitalize_keys v)"
    and "plain_json (map_strs capitalize_keys v)"
proof -
  have eq: "capitalize_keys = (\<lambda>s. foldl (\<lambda>t k. str_replace t k (capitalize k)) s CAPITALIZED_KEYS)"
    by (rule ext) (simp add: capitalize_keys_def)
  show "capitalize_keys (dumps_text v) = dumps_text (map_strs capitalize_keys v)"
    using fold_replace_dumps [OF capitalized_keys_ok assms] unfolding eq by simp
  show "plain_json (map_strs capitalize_keys v)"
    using fold_replace_dumps [OF capitalized_keys_ok assms] unfolding eq by simp
qed

text \<open>
  What the six replacements do to the strings of a schedule: five of the field names
  change, \<^verbatim>\<open>heatSetpoint\<close> and every value stay.
\<close>

lemma capitalize_keys_fields:
  "capitalize_keys ''dailySchedules'' = ''Dailyschedules''"
  "capitalize_keys ''dayOfWeek'' = ''Dayofweek''"
  "capitalize_keys ''switchpoints'' = ''Switchpoints''"
  "capitalize_keys ''timeOfDay'' = ''Timeofday''"
  "capitalize_keys ''heatSetpoint'' = ''heatSetpoint''"
  "capitalize_keys ''dhwState'' = ''Dhwstate''"
  by (simp_all add: capitalize_keys_def CAPITALIZED_KEYS_def SZ_defs capitalize_def
      to_upper_def to_lower_def str_replace_def)

lemma capitalize_keys_days:
  "s \<in> set DAYS_OF_WEEK \<Longrightarrow> capitalize_keys s = s"
  by (auto simp: DAYS_OF_WEEK_def capitalize_keys_def CAPITALIZED_KEYS_def SZ_defs capitalize_def
      to_upper_def to_lower_def str_replace_def)

lemma capitalize_keys_states:
  "s \<in> set [''On'', ''Off''] \<Longrightarrow> capitalize_keys s = s"
  by (auto simp: capitalize_keys_def CAPITALIZED_KEYS_def SZ_defs capitalize_def
      to_upper_def to_lower_def str_replace_def)

lemma fold_replace_time:
  assumes "list_all pat_ok ks" and "is_time_of_day s"
  shows "foldl (\<lambda>t k. str_replace t k (capitalize k)) s ks = s"
  using assms(1)
proof (induction ks)
  case Nil
  then show ?case by simp
next
  case (Cons k ks)
  then have k: "pat_ok k" by simp
  have ne: "k \<noteq> []" by (rule pat_ok_seps(1) [OF k])
  have "\<forall>x \<in> set s. x \<notin> set k"
    using assms(2) k by (auto simp: is_time_of_day_def pat_ok_def list_all_iff)
  then have "replace_scan k (capitalize k) (s @ []) = s @ replace_scan k (capitalize k) []"
    by (rule replace_scan_seps [OF ne])
  then have "str_replace s k (capitalize k) = s"
    using ne by (simp add: str_replace_def)
  with Cons show ?case by simp
qed

lemma capitalize_keys_time: "is_time_of_day s \<Longrightarrow> capitalize_keys s = s"
  using fold_replace_time [of CAPITALIZED_KEYS s] capitalized_keys_ok
  by (simp add: capitalize_keys_def list_all_iff)

text \<open>
  \<open>rename_keys f\<close> applies \<open>f\<close> to the keys of every dict of a value and leaves every
  other part as it is. \<open>schedule_words\<close> holds of the values built from the field names
  and the values of a remote schedule.
\<close>

fun rename_keys :: "(string \<Rightarrow> string) \<Rightarrow> pyval \<Rightarrow> pyval" where
  "rename_keys f (PList xs) = PList (map (rename_keys f) xs)"
| "rename_keys f (PDict d) = PDict (map (\<lambda>kv. (f (fst kv), rename_keys f (snd kv))) d)"
| "rename_keys f v = v"

definition SCHEDULE_KEYS :: "string list" where
  "SCHEDULE_KEYS =
     [''dailySchedules'', ''dayOfWeek'', ''switchpoints'', ''timeOfDay'', ''heatSetpoint'',
      ''dhwState'']"

fun schedule_words :: "pyval \<Rightarrow> bool" where
  "schedule_words (PStr s) =
     (s \<in> set DAYS_OF_WEEK \<or> s \<in> set [''On'', ''Off''] \<or> is_time_of_day s)"
| "schedule_words (PFloat l) = is_decimal l"
| "schedule_words (PList xs) = list_all schedule_words xs"
| "schedule_words (PDict d) =
     (distinct (map fst d)
      \<and> list_all (\<lambda>kv. fst kv \<in> set SCHEDULE_KEYS \<and> schedule_words (snd kv)) d)"
| "schedule_words v = False"

lemma keys_areD:
  assumes "keys_are d ks"
  shows "distinct (map fst d)"
    and "kv \<in> set d \<Longrightarrow> fst kv \<in> set ks"
    and "kv \<in> set d \<Longrightarrow> map_of d (fst kv) = Some (snd kv)"
proof -
  show d: "distinct (map fst d)"
    using assms by (simp add: keys_are_def)
  show "kv \<in> set d \<Longrightarrow> fst kv \<in> set ks"
    using assms by (auto simp: keys_are_def list_all_iff)
  show "kv \<in> set d \<Longrightarrow> map_of d (fst kv) = Some (snd kv)"
    using d by (cases kv) simp
qed

lemma SCH_SWITCHPOINT_cases:
  assumes "SCH_SWITCHPOINT v"
  obtains d t l where "v = PDict d" and "map_of d ''timeOfDay'' = Some (PStr t)"
      and "is_time_of_day t" and "keys_are d [''heatSetpoint'', ''timeOfDay'']"
      and "map_of d ''heatSetpoint'' = Some (PFloat l)" and "is_decimal l"
    | d t s where "v = PDict d" and "map_of d ''timeOfDay'' = Some (PStr t)"
      and "is_time_of_day t" and "keys_are d [''dhwState'', ''timeOfDay'']"
      and "map_of d ''dhwState'' = Some (PStr s)" and "s \<in> set [''On'', ''Off'']"
proof (cases v)
  case (PDict d)
  with assms obtain t where t: "map_of d ''timeOfDay'' = Some (PStr t)" "is_time_of_day t"
    and alt: "(keys_are d [''heatSetpoint'', ''timeOfDay'']
                \<and> (case map_of d ''heatSetpoint'' of Some (PFloat l) \<Rightarrow> is_decimal l | _ \<Rightarrow> False))
              \<or> (keys_are d [''dhwState'', ''timeOfDay'']
                \<and> (case map_of d ''dhwState'' of Some (PStr s) \<Rightarrow> s \<in> set [''On'', ''Off'']
                     | _ \<Rightarrow> False))"
    unfolding SCH_SWITCHPOINT_def SZ_defs
    by (simp split: option.splits pyval.splits)
  from alt show ?thesis
  proof
    assume a: "keys_are d [''heatSetpoint'', ''timeOfDay'']
                \<and> (case map_of d ''heatSetpoint'' of Some (PFloat l) \<Rightarrow> is_decimal l | _ \<Rightarrow> False)"
    then obtain l where "map_of d ''heatSetpoint'' = Some (PFloat l)" "is_decimal l"
      by (auto split: option.splits pyval.splits)
    with a t PDict that(1) show ?thesis by blast
  next
    assume a: "keys_are d [''dhwState'', ''timeOfDay'']
                \<and> (case map_of d ''dhwState'' of Some (PStr s) \<Rightarrow> s \<in> set [''On'', ''Off'']
                     | _ \<Rightarrow> False)"
    then obtain s where "map_of d ''dhwState'' = Some (PStr s)" "s \<in> set [''On'', ''Off'']"
      by (auto split: option.splits pyval.splits)
    with a t PDict that(2) show ?thesis by blast
  qed
qed (use assms in \<open>simp_all add: SCH_SWITCHPOINT_def\<close>)

lemma SCH_DAY_OF_WEEK_cases:
  assumes "SCH_DAY_OF_WEEK v"
  obtains d n sps where "v = PDict d" and "keys_are d [''dayOfWeek'', ''switchpoints'']"
    and "map_of d ''dayOfWeek'' = Some (PStr n)" and "n \<in> set DAYS_OF_WEEK"
    and "map_of d ''switchpoints'' = Some (PList sps)" and "list_all SCH_SWITCHPOINT sps"
proof (cases v)
  case (PDict d)
  with assms have k: "keys_are d [''dayOfWeek'', ''switchpoints'']"
    and n: "(case map_of d ''dayOfWeek'' of Some (PStr n) \<Rightarrow> n \<in> set DAYS_OF_WEEK | _ \<Rightarrow> False)"
    and s: "(case map_of d ''switchpoints'' of Some (PList sps) \<Rightarrow> list_all SCH_SWITCHPOINT sps
            | _ \<Rightarrow> False)"
    unfolding SCH_DAY_OF_WEEK_def SZ_defs by simp_all
  from n obtain n' where "map_of d ''dayOfWeek'' = Some (PStr n')" "n' \<in> set DAYS_OF_WEEK"
    by (auto split: option.splits pyval.splits)
  moreover from s obtain sps where "map_of d ''switchpoints'' = Some (PList sps)"
    "list_all SCH_SWITCHPOINT sps"
    by (auto split: option.splits pyval.splits)
  ultimately show ?thesis using k PDict that by blast
qed (use assms in \<open>simp_all add: SCH_DAY_OF_WEEK_def\<close>)

lemma SCH_SCHEDULE_cases:
  assumes "SCH_SCHEDULE v"
  obtains days where "v = PDict [(''dailySchedules'', PList days)]"
    and "list_all SCH_DAY_OF_WEEK days"
proof (cases v)
  case (PDict d)
  with assms have k: "keys_are d [''dailySchedules'']"
    and s: "(case map_of d ''dailySchedules'' of Some (PList days) \<Rightarrow> list_all SCH_DAY_OF_WEEK days
            | _ \<Rightarrow> False)"
    unfolding SCH_SCHEDULE_def SZ_defs by simp_all
  from s obtain days where m: "map_of d ''dailySchedules'' = Some (PList days)"
    and days: "list_all SCH_DAY_OF_WEEK days"
    by (auto split: option.splits pyval.splits)
  have all: "\<And>kv. kv \<in> set d \<Longrightarrow> kv = (''dailySchedules'', PList days)"
  proof -
    fix kv assume kv: "kv \<in> set d"
    have "fst kv = ''dailySchedules''"
      using keys_areD(2) [OF k kv] by simp
    moreover have "map_of d (fst kv) = Some (snd kv)"
      by (rule keys_areD(3) [OF k kv])
    ultimately show "kv = (''dailySchedules'', PList days)"
      using m by (cases kv) simp
  qed
  have "d = [(''dailySchedules'', PList days)]"
  proof (cases d)
    case Nil
    with m show ?thesis by simp
  next
    case (Cons a d')
    have a: "a = (''dailySchedules'', PList days)"
      using all [of a] Cons by simp
    have "d' = []"
    proof (cases d')
      case Nil
      then show ?thesis .
    next
      case inner: (Cons a' d'')
      have "a' = (''dailySchedules'', PList days)"
        using all [of a'] Cons inner by simp
      with a Cons inner keys_areD(1) [OF k] show ?thesis by simp
    qed
    with a Cons show ?thesis by simp
  qed
  with PDict days that show ?thesis by blast
qed (use assms in \<open>simp_all add: SCH_SCHEDULE_def\<close>)

lemma entry_value:
  "map_of d (fst kv) = Some (snd kv) \<Longrightarrow> fst kv = k \<Longrightarrow> map_of d k = Some x \<Longrightarrow> snd kv = x"
  by simp

lemma switchpoint_words: "SCH_SWITCHPOINT v \<Longrightarrow> schedule_words v"
proof (erule SCH_SWITCHPOINT_cases)
  fix d t l
  assume v: "v = PDict d" and t: "map_of d ''timeOfDay'' = Some (PStr t)" "is_time_of_day t"
    and k: "keys_are d [''heatSetpoint'', ''timeOfDay'']"
    and l: "map_of d ''heatSetpoint'' = Some (PFloat l)" "is_decimal l"
  have "\<And>kv. kv \<in> set d \<Longrightarrow> fst kv \<in> set SCHEDULE_KEYS \<and> schedule_words (snd kv)"
  proof -
    fix kv assume kv: "kv \<in> set d"
    have keys: "fst kv = ''heatSetpoint'' \<or> fst kv = ''timeOfDay''"
      using keys_areD(2) [OF k kv] by simp
    have m: "map_of d (fst kv) = Some (snd kv)"
      by (rule keys_areD(3) [OF k kv])
    from keys show "fst kv \<in> set SCHEDULE_KEYS \<and> schedule_words (snd kv)"
    proof
      assume a: "fst kv = ''heatSetpoint''"
      have "snd kv = PFloat l" by (rule entry_value [OF m a l(1)])
      with a l(2) show ?thesis by (simp add: SCHEDULE_KEYS_def)
    next
      assume a: "fst kv = ''timeOfDay''"
      have "snd kv = PStr t" by (rule entry_value [OF m a t(1)])
      with a t(2) show ?thesis by (simp add: SCHEDULE_KEYS_def)
    qed
  qed
  then show "schedule_words v"
    using v keys_areD(1) [OF k] by (simp add: list_all_iff)
next
  fix d t s
  assume v: "v = PDict d" and t: "map_of d ''timeOfDay'' = Some (PStr t)" "is_time_of_day t"
    and k: "keys_are d [''dhwState'', ''timeOfDay'']"
    and s: "map_of d ''dhwState'' = Some (PStr s)" "s \<in> set [''On'', ''Off'']"
  have "\<And>kv. kv \<in> set d \<Longrightarrow> fst kv \<in> set SCHEDULE_KEYS \<and> schedule_words (snd kv)"
  proof -
    fix kv assume kv: "kv \<in> set d"
    have keys: "fst kv = ''dhwState'' \<or> fst kv = ''timeOfDay''"
      using keys_areD(2) [OF k kv] by simp
    have m: "map_of d (fst kv) = Some (snd kv)"
      by (rule keys_areD(3) [OF k kv])
    from keys show "fst kv \<in> set SCHEDULE_KEYS \<and> schedule_words (snd kv)"
    proof
      assume a: "fst kv = ''dhwState''"
      have "snd kv = PStr s" by (rule entry_value [OF m a s(1)])
      with a s(2) show ?thesis by (simp add: SCHEDULE_KEYS_def)
    next
      assume a: "fst kv = ''timeOfDay''"
      have "snd kv = PStr t" by (rule entry_value [OF m a t(1)])
      with a t(2) show ?thesis by (simp add: SCHEDULE_KEYS_def)
    qed
  qed
  then show "schedule_words v"
    using v keys_areD(1) [OF k] by (simp add: list_all_iff)
qed

lemma day_words: "SCH_DAY_OF_WEEK v \<Longrightarrow> schedule_words v"
proof (erule SCH_DAY_OF_WEEK_cases)
  fix d n sps
  assume v: "v = PDict d" and k: "keys_are d [''dayOfWeek'', ''switchpoints'']"
    and n: "map_of d ''dayOfWeek'' = Some (PStr n)" "n \<in> set DAYS_OF_WEEK"
    and s: "map_of d ''switchpoints'' = Some (PList sps)" "list_all SCH_SWITCHPOINT sps"
  have sps: "schedule_words (PList sps)"
    using s(2) switchpoint_words by (simp add: list_all_iff)
  have "\<And>kv. kv \<in> set d \<Longrightarrow> fst kv \<in> set SCHEDULE_KEYS \<and> schedule_words (snd kv)"
  proof -
    fix kv assume kv: "kv \<in> set d"
    have keys: "fst kv = ''dayOfWeek'' \<or> fst kv = ''switchpoints''"
      using keys_areD(2) [OF k kv] by simp
    have m: "map_of d (fst kv) = Some (snd kv)"
      by (rule keys_areD(3) [OF k kv])
    from keys show "fst kv \<in> set SCHEDULE_KEYS \<and> schedule_words (snd kv)"
    proof
      assume a: "fst kv = ''dayOfWeek''"
      have "snd kv = PStr n" by (rule entry_value [OF m a n(1)])
      with a n(2) show ?thesis by (simp add: SCHEDULE_KEYS_def)
    next
      assume a: "fst kv = ''switchpoints''"
      have "snd kv = PList sps" by (rule entry_value [OF m a s(1)])
      with a sps show ?thesis by (simp add: SCHEDULE_KEYS_def)
    qed
  qed
  then show "schedule_words v"
    using v keys_areD(1) [OF k] by (simp add: list_all_iff)
qed

lemma schedule_schema_words: "SCH_SCHEDULE v \<Longrightarrow> schedule_words v"
proof (erule SCH_SCHEDULE_cases)
  fix days
  assume "v = PDict [(''dailySchedules'', PList days)]" and "list_all SCH_DAY_OF_WEEK days"
  then show "schedule_words v"
    using day_words by (simp add: list_all_iff SCHEDULE_KEYS_def)
qed

lemma schedule_keys_plain: "k \<in> set SCHEDULE_KEYS \<Longrightarrow> plain_str k"
  by (auto simp: SCHEDULE_KEYS_def plain_str_letters)

lemma time_plain: "is_time_of_day s \<Longrightarrow> plain_str s"
proof -
  assume "is_time_of_day s"
  then have "\<forall>c \<in> set s. c \<in> set ''0123456789:''"
    by (simp add: is_time_of_day_def list_all_iff)
  then have "\<forall>c \<in> set s. plain_char c"
    using plain_char_letter by auto
  then show ?thesis by (simp add: plain_str_def list_all_iff)
qed

lemma words_plain: "schedule_words v \<Longrightarrow> plain_json v"
proof (induction v)
  case (PStr s)
  then show ?case
    using time_plain [of s] by (auto simp: DAYS_OF_WEEK_def plain_str_letters)
next
  case (PList xs)
  then show ?case by (simp add: list_all_iff)
next
  case (PDict d)
  then show ?case
    using schedule_keys_plain snds_snd by (fastforce simp: list_all_iff)
qed simp_all

lemma words_map_strs: "schedule_words v \<Longrightarrow> map_strs capitalize_keys v = rename_keys capitalize_keys v"
proof (induction v)
  case (PStr s)
  then show ?case
    using capitalize_keys_days [of s] capitalize_keys_states [of s] capitalize_keys_time [of s]
    by auto
next
  case (PList xs)
  then show ?case by (simp add: list_all_iff)
next
  case (PDict d)
  then show ?case
    using snds_snd by (fastforce simp: list_all_iff)
qed simp_all

lemma capitalize_keys_inj: "inj_on capitalize_keys (set SCHEDULE_KEYS)"
  by (simp add: SCHEDULE_KEYS_def capitalize_keys_fields)

lemma words_distinct: "schedule_words v \<Longrightarrow> distinct_keys (rename_keys capitalize_keys v)"
proof (induction v)
  case (PList xs)
  then show ?case by (simp add: list_all_iff)
next
  case (PDict d)
  have sub: "set (map fst d) \<subseteq> set SCHEDULE_KEYS"
    using PDict.prems by (auto simp: list_all_iff)
  have d1: "distinct (map fst d)"
    using PDict.prems by simp
  have i: "inj_on capitalize_keys (set (map fst d))"
    by (rule inj_on_subset [OF capitalize_keys_inj sub])
  have "distinct (map capitalize_keys (map fst d))"
    by (rule distinct_map [THEN iffD2, OF conjI [OF d1 i]])
  moreover have "\<And>kv. kv \<in> set d \<Longrightarrow> distinct_keys (rename_keys capitalize_keys (snd kv))"
  proof -
    fix kv assume kv: "kv \<in> set d"
    then have "schedule_words (snd kv)"
      using PDict.prems by (simp add: list_all_iff)
    then show "distinct_keys (rename_keys capitalize_keys (snd kv))"
      by (rule PDict.IH [OF kv snds_snd])
  qed
  ultimately show ?case
    by (simp add: list_all_iff comp_def)
qed simp_all

lemma fits_rename: "fits depth (rename_keys f v) = fits depth v"
proof (induction v arbitrary: depth)
  case (PList xs)
  then show ?case by (cases depth) (simp_all add: list_all_iff)
next
  case (PDict d)
  have "\<And>kv dp. kv \<in> set d \<Longrightarrow> fits dp (rename_keys f (snd kv)) = fits dp (snd kv)"
    by (rule PDict.IH [OF _ snds_snd])
  then show ?case by (cases depth) (simp_all add: list_all_iff)
qed simp_all

text \<open>The text of a remote schedule, rewritten and parsed again, is the schedule with its keys renamed.\<close>

lemma loads_capitalized:
  assumes "SCH_SCHEDULE v" and "fits RECURSION_LIMIT v"
  shows "json_loads (capitalize_keys (dumps_text v)) = Inr (rename_keys capitalize_keys v)"
proof -
  have w: "schedule_words v"
    by (rule schedule_schema_words [OF assms(1)])
  have p: "plain_json v"
    by (rule words_plain [OF w])
  have eq: "map_strs capitalize_keys v = rename_keys capitalize_keys v"
    by (rule words_map_strs [OF w])
  have "json_loads (dumps_text (rename_keys capitalize_keys v)) = Inr (rename_keys capitalize_keys v)"
    using json_loads_dumps [of "rename_keys capitalize_keys v"]
      capitalize_keys_dumps(2) [OF p] words_distinct [OF w] eq assms(2)
    by (simp add: fits_rename)
  then show ?thesis
    using capitalize_keys_dumps(1) [OF p] eq by simp
qed

section \<open>The decoded schedule\<close>

text \<open>
  What the claims about \<^verbatim>\<open>get_schedule\<close> speak of: the switchpoints of a schedule day by
  day, each as its time of day, its heat setpoint and its hot-water state (\<^verbatim>\<open>None\<close> for
  the one it has not), read with the remote field names from the payload and with the
  capitalized ones from the result; and the day-of-week ordinals of the result.
\<close>

definition switchpoint_values :: "string \<Rightarrow> string \<Rightarrow> string \<Rightarrow> pyval \<Rightarrow> pyval \<times> pyval \<times> pyval" where
  "switchpoint_values tod hs dhw sp =
     (case sp of PDict e \<Rightarrow> (dict_get e tod, dict_get e hs, dict_get e dhw)
      | _ \<Rightarrow> (PNone, PNone, PNone))"

definition list_item :: "string \<Rightarrow> pyval \<Rightarrow> pyval list" where
  "list_item k v =
     (case v of PDict d \<Rightarrow> (case map_of d k of Some (PList xs) \<Rightarrow> xs | _ \<Rightarrow> []) | _ \<Rightarrow> [])"

definition remote_content :: "pyval \<Rightarrow> (pyval \<times> pyval \<times> pyval) list list" where
  "remote_content v =
     map (\<lambda>day. map (switchpoint_values ''timeOfDay'' ''heatSetpoint'' ''dhwState'')
                  (list_item ''switchpoints'' day))
       (list_item ''dailySchedules'' v)"

definition internal_content :: "pyval \<Rightarrow> (pyval \<times> pyval \<times> pyval) list list" where
  "internal_content r =
     map (\<lambda>day. map (switchpoint_values ''Timeofday'' ''heatSetpoint'' ''Dhwstate'')
                  (list_item ''Switchpoints'' day))
       (list_item ''Dailyschedules'' r)"

definition day_ordinals :: "pyval \<Rightarrow> pyval list" where
  "day_ordinals r =
     map (\<lambda>day. case day of PDict d \<Rightarrow> dict_get d ''Dayofweek'' | _ \<Rightarrow> PNone)
       (list_item ''Dailyschedules'' r)"

lemma two_keys:
  assumes "keys_are d [a, b]" and "a \<noteq> b" and "map_of d a = Some x" and "map_of d b = Some y"
  shows "d = [(a, x), (b, y)] \<or> d = [(b, y), (a, x)]"
proof -
  have dist: "distinct (map fst d)"
    by (rule keys_areD(1) [OF assms(1)])
  have val: "\<And>kv. kv \<in> set d \<Longrightarrow> kv = (a, x) \<or> kv = (b, y)"
  proof -
    fix kv assume kv: "kv \<in> set d"
    have "fst kv = a \<or> fst kv = b"
      using keys_areD(2) [OF assms(1) kv] by simp
    moreover have "map_of d (fst kv) = Some (snd kv)"
      by (rule keys_areD(3) [OF assms(1) kv])
    ultimately show "kv = (a, x) \<or> kv = (b, y)"
      using assms(3,4) by (cases kv) auto
  qed
  have a: "(a, x) \<in> set d" and b: "(b, y) \<in> set d"
    using assms(3,4) by (auto dest: map_of_SomeD)
  show ?thesis
  proof (cases d)
    case Nil
    with a show ?thesis by simp
  next
    case d1: (Cons p d')
    show ?thesis
    proof (cases d')
      case Nil
      with d1 a b assms(2) show ?thesis by auto
    next
      case d2: (Cons q d'')
      have "d'' = []"
      proof (cases d'')
        case Nil
        then show ?thesis .
      next
        case (Cons r d''')
        have "p = (a, x) \<or> p = (b, y)" "q = (a, x) \<or> q = (b, y)" "r = (a, x) \<or> r = (b, y)"
          using val [of p] val [of q] val [of r] d1 d2 Cons by simp_all
        with dist d1 d2 Cons show ?thesis by auto
      qed
      moreover have "p = (a, x) \<or> p = (b, y)" "q = (a, x) \<or> q = (b, y)"
        using val [of p] val [of q] d1 d2 by simp_all
      ultimately show ?thesis
        using dist d1 d2 by auto
    qed
  qed
qed

lemma switchpoint_shape:
  assumes "SCH_SWITCHPOINT sp"
  obtains t x where "sp = PDict [(''heatSetpoint'', PFloat x), (''timeOfDay'', PStr t)]"
    | t x where "sp = PDict [(''timeOfDay'', PStr t), (''heatSetpoint'', PFloat x)]"
    | t x where "sp = PDict [(''dhwState'', PStr x), (''timeOfDay'', PStr t)]"
    | t x where "sp = PDict [(''timeOfDay'', PStr t), (''dhwState'', PStr x)]"
proof (rule SCH_SWITCHPOINT_cases [OF assms])
  fix d t l
  assume "sp = PDict d" and "map_of d ''timeOfDay'' = Some (PStr t)"
    and "keys_are d [''heatSetpoint'', ''timeOfDay'']"
    and "map_of d ''heatSetpoint'' = Some (PFloat l)"
  then show thesis
    using two_keys [of d "''heatSetpoint''" "''timeOfDay''" "PFloat l" "PStr t"] that(1,2)
    by auto
next
  fix d t s
  assume "sp = PDict d" and "map_of d ''timeOfDay'' = Some (PStr t)"
    and "keys_are d [''dhwState'', ''timeOfDay'']"
    and "map_of d ''dhwState'' = Some (PStr s)"
  then show thesis
    using two_keys [of d "''dhwState''" "''timeOfDay''" "PStr s" "PStr t"] that(3,4)
    by auto
qed

lemma day_shape:
  assumes "SCH_DAY_OF_WEEK day"
  obtains n sps where "day = PDict [(''dayOfWeek'', PStr n), (''switchpoints'', PList sps)]"
      and "list_all SCH_SWITCHPOINT sps"
    | n sps where "day = PDict [(''switchpoints'', PList sps), (''dayOfWeek'', PStr n)]"
      and "list_all SCH_SWITCHPOINT sps"
proof (rule SCH_DAY_OF_WEEK_cases [OF assms])
  fix d n sps
  assume "day = PDict d" and "keys_are d [''dayOfWeek'', ''switchpoints'']"
    and "map_of d ''dayOfWeek'' = Some (PStr n)"
    and "map_of d ''switchpoints'' = Some (PList sps)" and "list_all SCH_SWITCHPOINT sps"
  then show thesis
    using two_keys [of d "''dayOfWeek''" "''switchpoints''" "PStr n" "PList sps"] that
    by auto
qed

lemma switchpoint_renamed:
  assumes "SCH_SWITCHPOINT sp"
  shows "switchpoint_values ''Timeofday'' ''heatSetpoint'' ''Dhwstate'' (rename_keys capitalize_keys sp)
           = switchpoint_values ''timeOfDay'' ''heatSetpoint'' ''dhwState'' sp"
  by (rule switchpoint_shape [OF assms])
    (simp_all add: switchpoint_values_def dict_get_def capitalize_keys_fields)

lemma switchpoints_renamed:
  "list_all SCH_SWITCHPOINT sps \<Longrightarrow>
     map (switchpoint_values ''Timeofday'' ''heatSetpoint'' ''Dhwstate'')
       (map (rename_keys capitalize_keys) sps)
     = map (switchpoint_values ''timeOfDay'' ''heatSetpoint'' ''dhwState'') sps"
  by (induction sps) (simp_all add: switchpoint_renamed)

text \<open>The days of a remote schedule after the renaming and the enumeration.\<close>

lemma set_day_of_week_days:
  "list_all SCH_DAY_OF_WEEK days \<Longrightarrow>
     \<exists>ys. set_day_of_week n (map (rename_keys capitalize_keys) days) = Inr ys
       \<and> map (\<lambda>day. map (switchpoint_values ''Timeofday'' ''heatSetpoint'' ''Dhwstate'')
                       (list_item ''Switchpoints'' day)) ys
         = map (\<lambda>day. map (switchpoint_values ''timeOfDay'' ''heatSetpoint'' ''dhwState'')
                         (list_item ''switchpoints'' day)) days
       \<and> map (\<lambda>day. case day of PDict d \<Rightarrow> dict_get d ''Dayofweek'' | _ \<Rightarrow> PNone) ys
         = map (\<lambda>i. PInt (int i)) [n ..< n + length days]"
proof (induction days arbitrary: n)
  case Nil
  then show ?case by simp
next
  case (Cons day days)
  define CI where "CI = (\<lambda>day. map (switchpoint_values ''Timeofday'' ''heatSetpoint'' ''Dhwstate'')
                       (list_item ''Switchpoints'' day))"
  define CR where "CR = (\<lambda>day. map (switchpoint_values ''timeOfDay'' ''heatSetpoint'' ''dhwState'')
                         (list_item ''switchpoints'' day))"
  define OD where "OD = (\<lambda>day. case day of PDict d \<Rightarrow> dict_get d ''Dayofweek'' | _ \<Rightarrow> PNone)"
  define us where "us = map (\<lambda>i. PInt (int i)) [Suc n ..< Suc n + length days]"
  from Cons.prems have day: "SCH_DAY_OF_WEEK day" and days: "list_all SCH_DAY_OF_WEEK days"
    by simp_all
  obtain ys where ys: "set_day_of_week (Suc n) (map (rename_keys capitalize_keys) days) = Inr ys"
    and c: "map CI ys = map CR days" and o: "map OD ys = us"
    using Cons.IH [OF days, of "Suc n"] unfolding CI_def CR_def OD_def us_def by blast
  have up: "map (\<lambda>i. PInt (int i)) [n ..< n + length (day # days)] = PInt (int n) # us"
    unfolding us_def by (simp add: upt_conv_Cons del: upt_Suc)
  have cap: "capitalize SZ_DAY_OF_WEEK = ''Dayofweek''"
    by (simp add: SZ_DAY_OF_WEEK_def capitalize_def to_upper_def to_lower_def)
  have "\<exists>day'. set_day_of_week n (map (rename_keys capitalize_keys) (day # days)) = Inr (day' # ys)
          \<and> CI day' = CR day \<and> OD day' = PInt (int n)"
  proof (rule day_shape [OF day])
    fix nm sps
    assume d: "day = PDict [(''dayOfWeek'', PStr nm), (''switchpoints'', PList sps)]"
      and sps: "list_all SCH_SWITCHPOINT sps"
    show ?thesis
      using switchpoints_renamed [OF sps]
      by (simp add: d cap capitalize_keys_fields ys CI_def CR_def OD_def list_item_def dict_get_def)
  next
    fix nm sps
    assume d: "day = PDict [(''switchpoints'', PList sps), (''dayOfWeek'', PStr nm)]"
      and sps: "list_all SCH_SWITCHPOINT sps"
    show ?thesis
      using switchpoints_renamed [OF sps]
      by (simp add: d cap capitalize_keys_fields ys CI_def CR_def OD_def list_item_def dict_get_def)
  qed
  then obtain day' where
    "set_day_of_week n (map (rename_keys capitalize_keys) (day # days)) = Inr (day' # ys)"
    "CI day' = CR day" "OD day' = PInt (int n)"
    by blast
  with c o up have "set_day_of_week n (map (rename_keys capitalize_keys) (day # days)) = Inr (day' # ys)
      \<and> map CI (day' # ys) = map CR (day # days)
      \<and> map OD (day' # ys) = map (\<lambda>i. PInt (int i)) [n ..< n + length (day # days)]"
    by simp
  then show ?case
    unfolding CI_def CR_def OD_def by blast
qed

text \<open>A remote schedule is five containers deep, and \<^verbatim>\<open>json.dumps\<close> accepts it.\<close>

lemma switchpoint_fits: "SCH_SWITCHPOINT sp \<Longrightarrow> fits (Suc depth) sp"
  by (erule switchpoint_shape) simp_all

lemma day_fits:
  assumes "SCH_DAY_OF_WEEK day"
  shows "fits (Suc (Suc (Suc depth))) day"
proof (rule day_shape [OF assms])
  fix n sps
  assume "day = PDict [(''dayOfWeek'', PStr n), (''switchpoints'', PList sps)]"
    and "list_all SCH_SWITCHPOINT sps"
  then show ?thesis
    using switchpoint_fits by (simp add: list_all_iff)
next
  fix n sps
  assume "day = PDict [(''switchpoints'', PList sps), (''dayOfWeek'', PStr n)]"
    and "list_all SCH_SWITCHPOINT sps"
  then show ?thesis
    using switchpoint_fits by (simp add: list_all_iff)
qed

lemma schedule_depth:
  assumes "SCH_SCHEDULE v"
  shows "fits (Suc (Suc (Suc (Suc (Suc depth))))) v"
proof (rule SCH_SCHEDULE_cases [OF assms])
  fix days
  assume v: "v = PDict [(''dailySchedules'', PList days)]" and days: "list_all SCH_DAY_OF_WEEK days"
  then show ?thesis
    using day_fits by (simp add: list_all_iff)
qed

lemma schedule_fits: "SCH_SCHEDULE v \<Longrightarrow> fits RECURSION_LIMIT v"
  using schedule_depth [of v 995] by (simp add: RECURSION_LIMIT_def)

lemma first_error_none: "\<forall>e \<in> set es. e = None \<Longrightarrow> first_error es = None"
  by (induction es) auto

lemma plain_encodes: "plain_json v \<Longrightarrow> fits depth v \<Longrightarrow> encode_error depth v = None"
proof (induction v arbitrary: depth)
  case (PList xs)
  then obtain dp where dp: "depth = Suc dp" and inner: "list_all (fits dp) xs"
    by (cases depth) auto
  have "\<forall>e \<in> set (map (encode_error dp) xs). e = None"
    using PList.IH PList.prems(1) inner by (auto simp: list_all_iff)
  then show ?case
    using dp by (simp add: first_error_none)
next
  case (PDict d)
  then obtain dp where dp: "depth = Suc dp" and inner: "list_all (\<lambda>kv. fits dp (snd kv)) d"
    by (cases depth) auto
  have "\<And>kv. kv \<in> set d \<Longrightarrow> encode_error dp (snd kv) = None"
  proof -
    fix kv assume kv: "kv \<in> set d"
    then have "plain_json (snd kv)" "fits dp (snd kv)"
      using PDict.prems(1) inner by (simp_all add: list_all_iff)
    then show "encode_error dp (snd kv) = None"
      by (rule PDict.IH [OF kv snds_snd])
  qed
  then have "\<forall>e \<in> set (map (\<lambda>kv. encode_error dp (snd kv)) d). e = None"
    by auto
  then show ?case
    using dp by (simp add: first_error_none)
qed simp_all

lemma decode_schedule_valid:
  assumes "SCH_SCHEDULE v"
  shows "\<exists>r. decode_schedule v = Inr r
           \<and> internal_content r = remote_content v
           \<and> day_ordinals r = map (\<lambda>i. PInt (int i)) [0 ..< length (list_item ''dailySchedules'' v)]"
proof (rule SCH_SCHEDULE_cases [OF assms])
  fix days
  assume v: "v = PDict [(''dailySchedules'', PList days)]" and days: "list_all SCH_DAY_OF_WEEK days"
  have dumps: "json_dumps v = Inr (dumps_text v)"
    using plain_encodes [OF words_plain [OF schedule_schema_words [OF assms]] schedule_fits [OF assms]]
    by (simp add: json_dumps_def)
  have loads: "json_loads (capitalize_keys (dumps_text v))
                 = Inr (PDict [(''Dailyschedules'', PList (map (rename_keys capitalize_keys) days))])"
    using loads_capitalized [OF assms schedule_fits [OF assms]]
    by (simp add: v capitalize_keys_fields)
  have cap: "capitalize SZ_DAILY_SCHEDULES = ''Dailyschedules''"
    by (simp add: SZ_DAILY_SCHEDULES_def capitalize_def to_upper_def to_lower_def)
  obtain ys where ys: "set_day_of_week 0 (map (rename_keys capitalize_keys) days) = Inr ys"
    and c: "map (\<lambda>day. map (switchpoint_values ''Timeofday'' ''heatSetpoint'' ''Dhwstate'')
                       (list_item ''Switchpoints'' day)) ys
         = map (\<lambda>day. map (switchpoint_values ''timeOfDay'' ''heatSetpoint'' ''dhwState'')
                         (list_item ''switchpoints'' day)) days"
    and o: "map (\<lambda>day. case day of PDict d \<Rightarrow> dict_get d ''Dayofweek'' | _ \<Rightarrow> PNone) ys
         = map (\<lambda>i. PInt (int i)) [0 ..< 0 + length days]"
    using set_day_of_week_days [OF days, of 0] by blast
  have r: "decode_schedule v = Inr (PDict [(''Dailyschedules'', PList ys)])"
    by (simp add: decode_schedule_def dumps loads enumerate_days_def cap dict_item_def ys)
  have "internal_content (PDict [(''Dailyschedules'', PList ys)]) = remote_content v"
    using c by (simp add: internal_content_def remote_content_def list_item_def v)
  moreover have "day_ordinals (PDict [(''Dailyschedules'', PList ys)])
                   = map (\<lambda>i. PInt (int i)) [0 ..< length (list_item ''dailySchedules'' v)]"
    using o by (simp add: day_ordinals_def list_item_def v)
  ultimately show ?thesis
    using r by simp
qed

lemma get_schedule_valid:
  assumes "respond b (calls b) (GET (schedule_path z)) = Inr v" and "SCH_SCHEDULE v"
  shows "get_schedule z b = (decode_schedule v, b\<lparr>calls := calls b @ [GET (schedule_path z)]\<rparr>)"
  using assms by (simp add: get_schedule_def broker_get_def validated_def)

text \<open>
  Claim C1. When the remote side answers the schedule request of \<^verbatim>\<open>get_schedule\<close> with a
  payload that the schedule schema accepts, \<^verbatim>\<open>get_schedule\<close> returns a result whose
  switchpoints, read day by day with the capitalized field names, are the payload's
  switchpoints read with the remote field names: as many days, as many switchpoints in
  each day, in the same order, each with the same time of day and the same setpoint or
  state.
\<close>

theorem get_schedule_preserves_content:
  assumes "respond b (calls b) (GET (z_type z @ ''/'' @ py_str (z_id z) @ ''/schedule'')) = Inr v"
    and "SCH_SCHEDULE v"
  shows "\<exists>r. fst (get_schedule z b) = Inr r
           \<and> internal_content r = remote_content v
           \<and> length (internal_content r) = length (list_item ''dailySchedules'' v)
           \<and> map length (internal_content r)
               = map (\<lambda>day. length (list_item ''switchpoints'' day)) (list_item ''dailySchedules'' v)"
proof -
  have "respond b (calls b) (GET (schedule_path z)) = Inr v"
    using assms(1) by (simp add: schedule_path_def)
  then have g: "fst (get_schedule z b) = decode_schedule v"
    using get_schedule_valid [OF _ assms(2)] by simp
  obtain r where r: "decode_schedule v = Inr r" and c: "internal_content r = remote_content v"
    using decode_schedule_valid [OF assms(2)] by blast
  have "length (remote_content v) = length (list_item ''dailySchedules'' v)"
    "map length (remote_content v)
       = map (\<lambda>day. length (list_item ''switchpoints'' day)) (list_item ''dailySchedules'' v)"
    by (simp_all add: remote_content_def comp_def)
  with g r c show ?thesis by simp
qed

text \<open>
  A week of a heating zone as the remote side sends it, listed from Sunday on and with
  the fields of its entries in both orders.
\<close>

definition example_day :: "string \<Rightarrow> pyval" where
  "example_day n =
     PDict [(''dayOfWeek'', PStr n),
            (''switchpoints'',
             PList [PDict [(''heatSetpoint'', PFloat ''17.0''), (''timeOfDay'', PStr ''06:30:00'')],
                    PDict [(''timeOfDay'', PStr ''22:00:00''), (''heatSetpoint'', PFloat ''15.5'')]])]"

definition example_schedule :: pyval where
  "example_schedule =
     PDict [(''dailySchedules'',
             PList [example_day ''Sunday'', example_day ''Monday'', example_day ''Tuesday'',
                    PDict [(''switchpoints'', PList []), (''dayOfWeek'', PStr ''Wednesday'')],
                    example_day ''Thursday'', example_day ''Friday'',
                    example_day ''Saturday''])]"

definition schedule_broker :: broker where
  "schedule_broker = \<lparr>calls = [], respond = (\<lambda>log r. Inr example_schedule)\<rparr>"

lemma example_schedule_valid: "SCH_SCHEDULE example_schedule"
  by (simp add: example_schedule_def example_day_def SCH_SCHEDULE_def SCH_DAY_OF_WEEK_def
      SCH_SWITCHPOINT_def keys_are_def SZ_defs DAYS_OF_WEEK_def is_time_of_day_def
      is_decimal_def is_digit_def)

lemma example_schedule_content:
  "remote_content example_schedule =
     [[(PStr ''06:30:00'', PFloat ''17.0'', PNone), (PStr ''22:00:00'', PFloat ''15.5'', PNone)],
      [(PStr ''06:30:00'', PFloat ''17.0'', PNone), (PStr ''22:00:00'', PFloat ''15.5'', PNone)],
      [(PStr ''06:30:00'', PFloat ''17.0'', PNone), (PStr ''22:00:00'', PFloat ''15.5'', PNone)],
      [],
      [(PStr ''06:30:00'', PFloat ''17.0'', PNone), (PStr ''22:00:00'', PFloat ''15.5'', PNone)],
      [(PStr ''06:30:00'', PFloat ''17.0'', PNone), (PStr ''22:00:00'', PFloat ''15.5'', PNone)],
      [(PStr ''06:30:00'', PFloat ''17.0'', PNone), (PStr ''22:00:00'', PFloat ''15.5'', PNone)]]"
  by (simp add: remote_content_def example_schedule_def example_day_def list_item_def
      switchpoint_values_def dict_get_def)

theorem get_schedule_preserves_content_witness:
  "\<exists>r. fst (get_schedule example_zone schedule_broker) = Inr r
     \<and> internal_content r =
     [[(PStr ''06:30:00'', PFloat ''17.0'', PNone), (PStr ''22:00:00'', PFloat ''15.5'', PNone)],
      [(PStr ''06:30:00'', PFloat ''17.0'', PNone), (PStr ''22:00:00'', PFloat ''15.5'', PNone)],
      [(PStr ''06:30:00'', PFloat ''17.0'', PNone), (PStr ''22:00:00'', PFloat ''15.5'', PNone)],
      [],
      [(PStr ''06:30:00'', PFloat ''17.0'', PNone), (PStr ''22:00:00'', PFloat ''15.5'', PNone)],
      [(PStr ''06:30:00'', PFloat ''17.0'', PNone), (PStr ''22:00:00'', PFloat ''15.5'', PNone)],
      [(PStr ''06:30:00'', PFloat ''17.0'', PNone), (PStr ''22:00:00'', PFloat ''15.5'', PNone)]]"
proof -
  have 1: "respond schedule_broker (calls schedule_broker)
             (GET (z_type example_zone @ ''/'' @ py_str (z_id example_zone) @ ''/schedule''))
           = Inr example_schedule"
    by (simp add: schedule_broker_def)
  show ?thesis
    using get_schedule_preserves_content [OF 1 example_schedule_valid]
    unfolding example_schedule_content by blast
qed

text \<open>
  Claim C2. When the payload that the schedule schema accepts has seven daily schedules,
  the entries of the result carry the ordinals 0 to 6 in the order of the payload,
  whatever day names the payload has.
\<close>

theorem get_schedule_day_ordinals:
  assumes "respond b (calls b) (GET (z_type z @ ''/'' @ py_str (z_id z) @ ''/schedule'')) = Inr v"
    and "SCH_SCHEDULE v"
    and "length (list_item ''dailySchedules'' v) = 7"
  shows "\<exists>r. fst (get_schedule z b) = Inr r
           \<and> day_ordinals r = [PInt 0, PInt 1, PInt 2, PInt 3, PInt 4, PInt 5, PInt 6]"
proof -
  have "respond b (calls b) (GET (schedule_path z)) = Inr v"
    using assms(1) by (simp add: schedule_path_def)
  then have g: "fst (get_schedule z b) = decode_schedule v"
    using get_schedule_valid [OF _ assms(2)] by simp
  obtain r where r: "decode_schedule v = Inr r"
    and o: "day_ordinals r = map (\<lambda>i. PInt (int i)) [0 ..< length (list_item ''dailySchedules'' v)]"
    using decode_schedule_valid [OF assms(2)] by blast
  have "map (\<lambda>i. PInt (int i)) [0 ..< 7] = [PInt 0, PInt 1, PInt 2, PInt 3, PInt 4, PInt 5, PInt 6]"
    by (simp add: upt_rec)
  with g r o assms(3) show ?thesis by simp
qed

theorem get_schedule_day_ordinals_witness:
  "hd (list_item ''dailySchedules'' example_schedule) = example_day ''Sunday''
   \<and> (\<exists>r. fst (get_schedule example_zone schedule_broker) = Inr r
         \<and> day_ordinals r = [PInt 0, PInt 1, PInt 2, PInt 3, PInt 4, PInt 5, PInt 6])"
proof -
  have 1: "respond schedule_broker (calls schedule_broker)
             (GET (z_type example_zone @ ''/'' @ py_str (z_id example_zone) @ ''/schedule''))
           = Inr example_schedule"
    by (simp add: schedule_broker_def)
  have 2: "length (list_item ''dailySchedules'' example_schedule) = 7"
    by (simp add: example_schedule_def list_item_def)
  have 3: "hd (list_item ''dailySchedules'' example_schedule) = example_day ''Sunday''"
    by (simp add: example_schedule_def list_item_def)
  show ?thesis
    using get_schedule_day_ordinals [OF 1 example_schedule_valid 2] 3 by blast
qed

end

